theory Spec2Isabelle
  imports Complex_Main
begin

section \<open>Data model\<close>

text \<open>
  The volumetric engine of the viewer works on JavaScript numbers and typed arrays. A
  JavaScript number is an IEEE 754 binary64 value: a finite number, one of the two
  infinities, or NaN. A finite number is modelled by the real number it denotes.
  \<open>jsnum\<close> is a number other than NaN; it is the type of the accumulators that the code
  initialises with \<^verbatim>\<open>Infinity\<close> and \<^verbatim>\<open>-Infinity\<close> and updates under a comparison.
  \<open>jsval\<close> is any number.
\<close>

datatype jsnum = NegInf | Fin real | PosInf

datatype jsval = NaN | Num jsnum

abbreviation num :: "real \<Rightarrow> jsval" where
  "num x \<equiv> Num (Fin x)"

text \<open>The comparison \<^verbatim>\<open>a < b\<close> of JavaScript on numbers other than NaN.\<close>

fun lt :: "jsnum \<Rightarrow> jsnum \<Rightarrow> bool" where
  "lt (Fin a) (Fin b) = (a < b)"
| "lt NegInf NegInf = False"
| "lt NegInf _ = True"
| "lt _ NegInf = False"
| "lt PosInf _ = False"
| "lt (Fin a) PosInf = True"

definition leq :: "jsnum \<Rightarrow> jsnum \<Rightarrow> bool" where
  "leq a b = (\<not> lt b a)"

text \<open>The comparisons of JavaScript on all numbers: each of them is false on NaN.\<close>

fun jsLt :: "jsval \<Rightarrow> jsval \<Rightarrow> bool" where
  "jsLt (Num a) (Num b) = lt a b"
| "jsLt _ _ = False"

fun jsLe :: "jsval \<Rightarrow> jsval \<Rightarrow> bool" where
  "jsLe (Num a) (Num b) = leq a b"
| "jsLe _ _ = False"

definition jsGt :: "jsval \<Rightarrow> jsval \<Rightarrow> bool" where
  "jsGt a b = jsLt b a"

definition jsGe :: "jsval \<Rightarrow> jsval \<Rightarrow> bool" where
  "jsGe a b = jsLe b a"

subsection \<open>Rounding\<close>

text \<open>
  The result of an arithmetic operation on finite numbers is the exact result rounded
  to the nearest binary64 number, a tie going to the one with the even significand; a
  store into a \<^verbatim>\<open>Float32Array\<close> rounds to the nearest binary32 number in the same way.

  \<open>rne\<close> rounds a real to the nearest integer, ties to even.
\<close>

definition rne :: "real \<Rightarrow> int" where
  "rne x = (let f = \<lfloor>x\<rfloor>; d = x - real_of_int f
            in if d < 1/2 then f else if 1/2 < d then f + 1 else if even f then f else f + 1)"

text \<open>
  The binary exponent of a real \<open>x\<close>: the \<open>e\<close> with \<open>2^e \<le> |x| < 2^(e+1)\<close>, found by
  halving a number from 1 upwards and by doubling a number below 1, at most 1100 times
  each. This covers every magnitude from \<open>2^-1100\<close> up to \<open>2^1101\<close>, which is more than the
  range of binary64; a smaller number, and zero, get \<open>-1100\<close>.
\<close>

fun normUp :: "nat \<Rightarrow> real \<Rightarrow> int" where
  "normUp 0 x = 0"
| "normUp (Suc n) x = (if x < 2 then 0 else normUp n (x / 2) + 1)"

fun normDown :: "nat \<Rightarrow> real \<Rightarrow> int" where
  "normDown 0 x = 0"
| "normDown (Suc n) x = (if 1 \<le> x then 0 else normDown n (2 * x) - 1)"

definition expo :: "real \<Rightarrow> int" where
  "expo x = (if 1 \<le> \<bar>x\<bar> then normUp 1100 \<bar>x\<bar> else normDown 1100 \<bar>x\<bar>)"

text \<open>
  Rounding to a binary format with \<open>p\<close> significant bits whose least normal exponent is
  \<open>emin\<close>, for a number below the overflow threshold: the number is a multiple of
  \<open>2^q\<close> after rounding, where \<open>q\<close> is the exponent of the last of the \<open>p\<close> bits, and
  \<open>emin - p + 1\<close> for a subnormal number.
\<close>

definition roundTo :: "nat \<Rightarrow> int \<Rightarrow> real \<Rightarrow> real" where
  "roundTo p emin x =
     (let q = max (expo x) emin - int p + 1
      in real_of_int (rne (x / 2 powi q)) * 2 powi q)"

definition round64 :: "real \<Rightarrow> real" where
  "round64 x = roundTo 53 (- 1022) x"

definition round32 :: "real \<Rightarrow> real" where
  "round32 x = roundTo 24 (- 126) x"

text \<open>
  The binary64 value of an exact result. The greatest finite binary64 number is
  \<open>2^1024 - 2^971\<close>; an exact result half a step above it or more, \<open>2^1024 - 2^970\<close>,
  is rounded to \<^verbatim>\<open>Infinity\<close>.
\<close>

definition double :: "real \<Rightarrow> jsnum" where
  "double x =
     (if 2 ^ 1024 - 2 ^ 970 \<le> x then PosInf
      else if x \<le> - (2 ^ 1024 - 2 ^ 970) then NegInf
      else Fin (round64 x))"

text \<open>
  \<^verbatim>\<open>Math.fround\<close>, the conversion of a store into a \<^verbatim>\<open>Float32Array\<close>. The greatest
  finite binary32 number is \<open>2^128 - 2^104\<close>.
\<close>

definition fround :: "real \<Rightarrow> jsnum" where
  "fround x =
     (if 2 ^ 128 - 2 ^ 103 \<le> x then PosInf
      else if x \<le> - (2 ^ 128 - 2 ^ 103) then NegInf
      else Fin (round32 x))"

fun jsFround :: "jsval \<Rightarrow> jsval" where
  "jsFround (Num (Fin x)) = Num (fround x)"
| "jsFround v = v"

subsection \<open>Arithmetic\<close>

text \<open>
  The operators \<^verbatim>\<open>+\<close>, \<^verbatim>\<open>-\<close>, \<^verbatim>\<open>*\<close> and \<^verbatim>\<open>/\<close> on numbers, and \<^verbatim>\<open>Math.floor\<close>. The
  sign of a zero is not modelled: the two zeros are one number here. JavaScript tells
  them apart in one place only, the quotient of a number other than zero by a zero,
  which is infinite with the product of the two signs; a zero divisor counts as positive
  here. The divisors of the functions below are of three kinds. A count, or a difference
  of counts, is an integer, and its zero is positive. A range \<^verbatim>\<open>max - min || 1\<close> is never
  zero. The \<^verbatim>\<open>step\<close> of the histogram, \<^verbatim>\<open>256 / range\<close>, is zero when the range is
  infinite; it is a negative zero when the range is \<^verbatim>\<open>-Infinity\<close>, and the quotient
  \<^verbatim>\<open>thresholdBin / step\<close> of a segmentation run has the other sign then.
\<close>

definition jsNeg :: "jsnum \<Rightarrow> jsnum" where
  "jsNeg a = (case a of NegInf \<Rightarrow> PosInf | Fin x \<Rightarrow> Fin (- x) | PosInf \<Rightarrow> NegInf)"

fun jsAdd :: "jsval \<Rightarrow> jsval \<Rightarrow> jsval" where
  "jsAdd (Num (Fin a)) (Num (Fin b)) = Num (double (a + b))"
| "jsAdd (Num PosInf) (Num NegInf) = NaN"
| "jsAdd (Num NegInf) (Num PosInf) = NaN"
| "jsAdd (Num PosInf) (Num _) = Num PosInf"
| "jsAdd (Num _) (Num PosInf) = Num PosInf"
| "jsAdd (Num NegInf) (Num _) = Num NegInf"
| "jsAdd (Num _) (Num NegInf) = Num NegInf"
| "jsAdd NaN _ = NaN"
| "jsAdd _ NaN = NaN"

fun jsSub :: "jsval \<Rightarrow> jsval \<Rightarrow> jsval" where
  "jsSub (Num (Fin a)) (Num (Fin b)) = Num (double (a - b))"
| "jsSub (Num PosInf) (Num PosInf) = NaN"
| "jsSub (Num NegInf) (Num NegInf) = NaN"
| "jsSub (Num PosInf) (Num _) = Num PosInf"
| "jsSub (Num _) (Num PosInf) = Num NegInf"
| "jsSub (Num NegInf) (Num _) = Num NegInf"
| "jsSub (Num _) (Num NegInf) = Num PosInf"
| "jsSub NaN _ = NaN"
| "jsSub _ NaN = NaN"

fun jsMul :: "jsval \<Rightarrow> jsval \<Rightarrow> jsval" where
  "jsMul (Num (Fin a)) (Num (Fin b)) = Num (double (a * b))"
| "jsMul (Num (Fin a)) (Num i) = (if a = 0 then NaN else if 0 < a then Num i else Num (jsNeg i))"
| "jsMul (Num i) (Num (Fin b)) = (if b = 0 then NaN else if 0 < b then Num i else Num (jsNeg i))"
| "jsMul (Num i) (Num j) = Num (if i = j then PosInf else NegInf)"
| "jsMul NaN _ = NaN"
| "jsMul _ NaN = NaN"

fun jsDiv :: "jsval \<Rightarrow> jsval \<Rightarrow> jsval" where
  "jsDiv (Num (Fin a)) (Num (Fin b)) =
     (if b = 0 then (if a = 0 then NaN else if 0 < a then Num PosInf else Num NegInf)
      else Num (double (a / b)))"
| "jsDiv (Num (Fin a)) (Num _) = num 0"
| "jsDiv (Num i) (Num (Fin b)) = (if 0 \<le> b then Num i else Num (jsNeg i))"
| "jsDiv (Num _) (Num _) = NaN"
| "jsDiv NaN _ = NaN"
| "jsDiv _ NaN = NaN"

fun jsFloor :: "jsval \<Rightarrow> jsval" where
  "jsFloor (Num (Fin a)) = num (real_of_int \<lfloor>a\<rfloor>)"
| "jsFloor v = v"

text \<open>The idiom \<^verbatim>\<open>x || 1\<close> on a number: 1 when \<open>x\<close> is zero or NaN, \<open>x\<close> otherwise.\<close>

definition jsOrOne :: "jsval \<Rightarrow> jsval" where
  "jsOrOne x = (if x = NaN \<or> x = num 0 then num 1 else x)"

text \<open>The contents of a typed array as numbers.\<close>

definition nums :: "real list \<Rightarrow> jsval list" where
  "nums xs = map num xs"

text \<open>
  The header of a volume is an opaque object (\<^verbatim>\<open>header: any\<close>); the engine reads and
  writes the fields \<^verbatim>\<open>datatypeCode\<close> and \<^verbatim>\<open>dims\<close> only. It is a finite map from
  field names to values.
\<close>

datatype hval = HNum int | HArr "int list"

type_synonym header = "string \<rightharpoonup> hval"

text \<open>
  \<^verbatim>\<open>interface VolumeData { header; data; dimensions; min; max }\<close> of \<^verbatim>\<open>types.ts\<close>.
  The fields \<^verbatim>\<open>min\<close> and \<^verbatim>\<open>max\<close> are \<open>vmin\<close> and \<open>vmax\<close> here. Their type is a
  parameter: \<open>real\<close> for a volume that a stage reads (its range is finite), \<open>jsnum\<close> or
  \<open>jsval\<close> for a volume whose range a function has just computed from \<^verbatim>\<open>Infinity\<close> and
  \<^verbatim>\<open>-Infinity\<close>. The type of \<open>data\<close> is a parameter too: the contents of the typed
  array for the functions of \<^verbatim>\<open>utils/imageProcessing.ts\<close>, which allocate their result
  and write to nothing else, and the address of the array in a store for the stages of
  the panels and for the brush, where the question is which array is written. The
  contents are a \<open>jsval list\<close> for the volumes \<^verbatim>\<open>computeVolumeDifference\<close> subtracts,
  whose samples may be any number, and a \<open>real list\<close> for the masks
  \<^verbatim>\<open>computeSegmentationDifference\<close> compares and for the arrays of the store, whose
  samples are finite.
\<close>

record ('d, 'n) VolumeData =
  header :: header
  data :: 'd
  dimensions :: "nat \<times> nat \<times> nat"
  vmin :: 'n
  vmax :: 'n

section \<open>Study difference engine (\<^verbatim>\<open>utils/imageProcessing.ts\<close>)\<close>

text \<open>
  The loop of \<^verbatim>\<open>computeVolumeDifference\<close>:
  \<^verbatim>\<open>for(let i=0; i<len; i++) { const val = volB.data[i] - volA.data[i]; diffData[i] = val;
     if (val < min) min = val; if (val > max) max = val; }\<close>
  The state is the output array and the two accumulators. The difference \<open>val\<close> is a
  binary64 number; the store into \<^verbatim>\<open>diffData\<close>, a \<^verbatim>\<open>Float32Array\<close>, rounds it to
  binary32, and the two comparisons read the number before that rounding.
\<close>

function diffLoop ::
  "jsval list \<Rightarrow> jsval list \<Rightarrow> nat \<Rightarrow> nat \<Rightarrow> jsval list \<times> jsval \<times> jsval \<Rightarrow> jsval list \<times> jsval \<times> jsval" where
  "diffLoop dA dB len i (diffData, mn, mx) =
     (if i < len then
        (let val = jsSub (dB ! i) (dA ! i);
             diffData' = diffData[i := jsFround val];
             mn' = (if jsLt val mn then val else mn);
             mx' = (if jsGt val mx then val else mx)
         in diffLoop dA dB len (Suc i) (diffData', mn', mx'))
      else (diffData, mn, mx))"
  by pat_completeness auto
termination
  by (relation "measure (\<lambda>(dA, dB, len, i, s). len - i)") auto

declare diffLoop.simps [simp del]

text \<open>
  \<^verbatim>\<open>computeVolumeDifference(volA, volB)\<close>: \<^verbatim>\<open>null\<close> (here \<open>None\<close>) when the two data
  arrays differ in length; otherwise a new volume with the header of \<open>volA\<close> retagged as
  32-bit float (code 16), the dimensions of \<open>volA\<close>, a fresh zero-filled array that the
  loop fills, and the range the loop found.
\<close>

definition computeVolumeDifference :: "(jsval list, 'a) VolumeData \<Rightarrow> (jsval list, 'b) VolumeData \<Rightarrow> (jsval list, jsval) VolumeData option" where
  "computeVolumeDifference volA volB =
     (if length (data volA) \<noteq> length (data volB) then None
      else
        (let len = length (data volA);
             (diffData, mn, mx) =
               diffLoop (data volA) (data volB) len 0 (replicate len (num 0), Num PosInf, Num NegInf)
         in Some \<lparr> header = (header volA)(''datatypeCode'' \<mapsto> HNum 16),
                   data = diffData,
                   dimensions = dimensions volA,
                   vmin = mn,
                   vmax = mx \<rparr>))"

text \<open>
  The differences before the store, and the numbers among them: a comparison with NaN
  is false, so a difference that is NaN changes neither accumulator.
\<close>

definition differences :: "jsval list \<Rightarrow> jsval list \<Rightarrow> jsval list" where
  "differences dA dB = map (\<lambda>i. jsSub (dB ! i) (dA ! i)) [0..<length dA]"

text \<open>The two updates \<^verbatim>\<open>if (val < min) min = val\<close> and \<^verbatim>\<open>if (val > max) max = val\<close>.\<close>

definition accMin :: "jsval \<Rightarrow> jsval \<Rightarrow> jsval" where
  "accMin m v = (if jsLt v m then v else m)"

definition accMax :: "jsval \<Rightarrow> jsval \<Rightarrow> jsval" where
  "accMax m v = (if jsGt v m then v else m)"

definition isNum :: "jsval \<Rightarrow> bool" where
  "isNum v = (v \<noteq> NaN)"

definition isFinite :: "jsval \<Rightarrow> bool" where
  "isFinite v = (case v of Num (Fin x) \<Rightarrow> True | _ \<Rightarrow> False)"

text \<open>
  The accumulators \<^verbatim>\<open>if (v < min) min = v\<close> and \<^verbatim>\<open>if (v > max) max = v\<close> of the stages on
  finite samples.
\<close>

definition stepMin :: "jsnum \<Rightarrow> real \<Rightarrow> jsnum" where
  "stepMin mn v = (if lt (Fin v) mn then Fin v else mn)"
definition stepMax :: "jsnum \<Rightarrow> real \<Rightarrow> jsnum" where
  "stepMax mx v = (if lt mx (Fin v) then Fin v else mx)"

text \<open>Volumes for the concrete instances below: a volume with no header fields.\<close>

definition mkVolume :: "'d \<Rightarrow> nat \<times> nat \<times> nat \<Rightarrow> real \<Rightarrow> real \<Rightarrow> ('d, real) VolumeData" where
  "mkVolume d dims lo hi = \<lparr> header = Map.empty, data = d, dimensions = dims, vmin = lo, vmax = hi \<rparr>"

definition exA :: "(jsval list, real) VolumeData" where
  "exA = mkVolume [num 1, num 5, num 2] (3, 1, 1) 1 5"
definition exB :: "(jsval list, real) VolumeData" where
  "exB = mkVolume [num 4, num 4, num 4] (3, 1, 1) 4 4"
definition exEmpty :: "(jsval list, real) VolumeData" where
  "exEmpty = mkVolume [] (0, 0, 0) 0 0"

text \<open>
  Two one-voxel volumes of 32-bit integers, read from an \<^verbatim>\<open>Int32Array\<close>: the least and
  the greatest such integer.
\<close>

definition exInt32Min :: "(jsval list, real) VolumeData" where
  "exInt32Min = mkVolume [num (- 2147483648)] (1, 1, 1) (- 2147483648) (- 2147483648)"
definition exInt32Max :: "(jsval list, real) VolumeData" where
  "exInt32Max = mkVolume [num 2147483647] (1, 1, 1) 2147483647 2147483647"

text \<open>
  The test \<^verbatim>\<open>dataA[i] > 0\<close>. A typed array read beyond the end gives \<^verbatim>\<open>undefined\<close>, and
  \<^verbatim>\<open>undefined > 0\<close> is false.
\<close>

definition present :: "real list \<Rightarrow> nat \<Rightarrow> bool" where
  "present d i = (i < length d \<and> d ! i > 0)"

text \<open>
  The loop of \<^verbatim>\<open>computeSegmentationDifference\<close>, with the output array as its state:
  \<^verbatim>\<open>if (valA && !valB) diffData[i] = 1; else if (!valA && valB) diffData[i] = 2;
   else if (valA && valB) diffData[i] = 3; else diffData[i] = 0;\<close>
\<close>

function segDiffLoop :: "real list \<Rightarrow> real list \<Rightarrow> nat \<Rightarrow> nat \<Rightarrow> real list \<Rightarrow> real list" where
  "segDiffLoop dataA dataB len i diffData =
     (if i < len then
        (let valA = present dataA i;
             valB = present dataB i;
             diffData' =
               (if valA \<and> \<not> valB then diffData[i := 1]
                else if \<not> valA \<and> valB then diffData[i := 2]
                else if valA \<and> valB then diffData[i := 3]
                else diffData[i := 0])
         in segDiffLoop dataA dataB len (Suc i) diffData')
      else diffData)"
  by pat_completeness auto
termination
  by (relation "measure (\<lambda>(dataA, dataB, len, i, d). len - i)") auto

declare segDiffLoop.simps [simp del]

text \<open>
  \<^verbatim>\<open>computeSegmentationDifference(segA, segB, dimRef)\<close>. It returns \<^verbatim>\<open>null\<close> when both
  masks are \<^verbatim>\<open>null\<close> and when the length it works on is 0. The length is that of
  \<open>segA\<close> when it is present, of \<open>segB\<close> otherwise; a missing mask is replaced by a fresh
  zero-filled array of that length. The result has a new header (\<^verbatim>\<open>dims\<close> built from
  \<open>dimRef\<close>, byte data type 2), the dimensions \<open>dimRef\<close> and the fixed range 0 to 3.
\<close>

definition computeSegmentationDifference ::
  "(real list, 'a) VolumeData option \<Rightarrow> (real list, 'b) VolumeData option \<Rightarrow> nat \<times> nat \<times> nat \<Rightarrow> (real list, real) VolumeData option" where
  "computeSegmentationDifference segA segB dimRef =
     (if segA = None \<and> segB = None then None
      else
        (let len = (case segA of Some a \<Rightarrow> length (data a)
                    | None \<Rightarrow> (case segB of Some b \<Rightarrow> length (data b) | None \<Rightarrow> 0))
         in if len = 0 then None
            else
              (let diffData = replicate len 0;
                   dataA = (case segA of Some a \<Rightarrow> data a | None \<Rightarrow> replicate len 0);
                   dataB = (case segB of Some b \<Rightarrow> data b | None \<Rightarrow> replicate len 0);
                   diffData' = segDiffLoop dataA dataB len 0 diffData
               in (case dimRef of (d0, d1, d2) \<Rightarrow>
                     Some \<lparr> header = [''dims'' \<mapsto> HArr [3, int d0, int d1, int d2, 1, 1, 1, 1],
                                      ''datatypeCode'' \<mapsto> HNum 2],
                            data = diffData',
                            dimensions = dimRef,
                            vmin = 0,
                            vmax = 3 \<rparr>))))"

text \<open>Presence of voxel \<open>i\<close> in a mask that may be missing: a missing mask has no voxel.\<close>

definition presentIn :: "(real list, 'a) VolumeData option \<Rightarrow> nat \<Rightarrow> bool" where
  "presentIn seg i = (case seg of None \<Rightarrow> False | Some m \<Rightarrow> present (data m) i)"

text \<open>The length \<^verbatim>\<open>computeSegmentationDifference\<close> works on.\<close>

definition segDiffLen :: "(real list, 'a) VolumeData option \<Rightarrow> (real list, 'b) VolumeData option \<Rightarrow> nat" where
  "segDiffLen segA segB =
     (case segA of Some a \<Rightarrow> length (data a)
      | None \<Rightarrow> (case segB of Some b \<Rightarrow> length (data b) | None \<Rightarrow> 0))"

text \<open>The four categories of the specification.\<close>

definition category :: "bool \<Rightarrow> bool \<Rightarrow> real" where
  "category inA inB = (if inA \<and> inB then 3 else if inA then 1 else if inB then 2 else 0)"

definition exMaskA :: "(real list, real) VolumeData" where "exMaskA = mkVolume [1, 0, 1, 0] (4, 1, 1) 0 1"
definition exMaskB :: "(real list, real) VolumeData" where "exMaskB = mkVolume [0, 0, 1, 1] (4, 1, 1) 0 1"

definition exMask2 :: "(real list, real) VolumeData" where "exMask2 = mkVolume [1, 0] (2, 1, 1) 0 1"

section \<open>Histogram estimator (\<^verbatim>\<open>components/ProcessingPanel.tsx\<close>)\<close>

text \<open>
  The idiom \<^verbatim>\<open>x || 1\<close> on a finite number, for the stages that are modelled on exact
  reals: 1 when \<open>x\<close> is zero, \<open>x\<close> otherwise.
\<close>

definition orOne :: "real \<Rightarrow> real" where
  "orOne x = (if x = 0 then 1 else x)"

text \<open>
  \<^verbatim>\<open>const stride = len > 2_000_000 ? Math.floor(len / 500_000) : 1;\<close>
\<close>

definition histStride :: "nat \<Rightarrow> nat" where
  "histStride len = (if len > 2000000 then len div 500000 else 1)"

text \<open>
  The bin of a sample: \<^verbatim>\<open>Math.floor((val - min) * step)\<close>, a difference and a product
  of binary64 numbers.
\<close>

definition binOf :: "jsval \<Rightarrow> jsval \<Rightarrow> jsval \<Rightarrow> jsval" where
  "binOf mn step val = jsFloor (jsMul (jsSub val mn) step)"

text \<open>
  The test \<^verbatim>\<open>bin >= 0 && bin < 256\<close>, which no bin that is NaN or infinite passes, and
  the index \<^verbatim>\<open>histogram[bin]\<close> of a bin that passes it.
\<close>

definition inBins :: "jsval \<Rightarrow> bool" where
  "inBins bin = (jsGe bin (num 0) \<and> jsLt bin (num 256))"

definition binIndex :: "jsval \<Rightarrow> nat" where
  "binIndex bin = (case bin of Num (Fin b) \<Rightarrow> nat \<lfloor>b\<rfloor> | _ \<Rightarrow> 0)"

text \<open>
  The loop of \<^verbatim>\<open>getHistogram\<close>:
  \<^verbatim>\<open>for (let i = 0; i < len; i += stride) { const val = data[i];
     const bin = Math.floor((val - min) * step);
     if (bin >= 0 && bin < 256) histogram[bin]++; }\<close>
  The state is the histogram, an \<^verbatim>\<open>Int32Array(256)\<close>. Its counts start at zero and
  grow by one for a visited sample, and at most 2,000,000 samples are visited
  (\<open>visited_le\<close> below), so no count reaches \<open>2^31\<close> and natural numbers model them
  exactly. The stride is never 0 in the code; the recursion stops there.
\<close>

function histLoop :: "jsval list \<Rightarrow> jsval \<Rightarrow> jsval \<Rightarrow> nat \<Rightarrow> nat \<Rightarrow> nat list \<Rightarrow> nat list" where
  "histLoop dat mn step stride i histogram =
     (if i < length dat \<and> 0 < stride then
        (let val = dat ! i;
             bin = binOf mn step val;
             histogram' =
               (if inBins bin then histogram[binIndex bin := histogram ! binIndex bin + 1]
                else histogram)
         in histLoop dat mn step stride (i + stride) histogram')
      else histogram)"
  by pat_completeness auto
termination
  by (relation "measure (\<lambda>(dat, mn, step, stride, i, h). length dat - i)") auto

declare histLoop.simps [simp del]

text \<open>\<^verbatim>\<open>getHistogram(data, min, max)\<close> returns the histogram and the step.\<close>

definition getHistogram :: "jsval list \<Rightarrow> jsval \<Rightarrow> jsval \<Rightarrow> nat list \<times> jsval" where
  "getHistogram dat mn mx =
     (let histogram = replicate 256 0;
          range = jsOrOne (jsSub mx mn);
          step = jsDiv (num 256) range;
          len = length dat;
          stride = histStride len
      in (histLoop dat mn step stride 0 histogram, step))"

text \<open>
  The indices the loop visits: \<open>0, stride, 2*stride, ...\<close> below the length.
\<close>

definition visited :: "nat \<Rightarrow> nat list" where
  "visited len = filter (\<lambda>i. histStride len dvd i) [0..<len]"

text \<open>A visited sample is counted when its bin is one of the 256.\<close>

definition counted :: "jsval list \<Rightarrow> jsval \<Rightarrow> jsval \<Rightarrow> nat \<Rightarrow> bool" where
  "counted dat mn mx i = inBins (binOf mn (jsDiv (num 256) (jsOrOne (jsSub mx mn))) (dat ! i))"


text \<open>
  A volume of one binary64 sample just below 105, the greatest binary64 number below
  it, for the range 0 to 105.
\<close>

definition exBelowMax :: "jsval list" where "exBelowMax = [num (105 - 1 / 2 ^ 46)]"

section \<open>Threshold solvers (\<^verbatim>\<open>components/ProcessingPanel.tsx\<close>)\<close>

text \<open>
  The threshold solvers add up histogram entries. A read \<^verbatim>\<open>histogram[i]\<close> outside the
  array gives \<^verbatim>\<open>undefined\<close>, and a sum that takes it in is NaN from then on: an
  accumulator is an \<open>int option\<close>, with \<open>None\<close> for NaN.
\<close>

definition histAt :: "nat list \<Rightarrow> int \<Rightarrow> int option" where
  "histAt h i = (if 0 \<le> i \<and> i < int (length h) then Some (int (h ! nat i)) else None)"

definition addN :: "int option \<Rightarrow> int option \<Rightarrow> int option" where
  "addN a b = (case (a, b) of (Some x, Some y) \<Rightarrow> Some (x + y) | _ \<Rightarrow> None)"

text \<open>
  The loops \<^verbatim>\<open>for (i = lo; i < hi; i++) { w += histogram[i]; sum += i * histogram[i]; }\<close>
  of \<^verbatim>\<open>computeLiThreshold\<close>, with the pair of accumulators as state.
\<close>

function weightLoop :: "nat list \<Rightarrow> int \<Rightarrow> int \<Rightarrow> int option \<times> int option \<Rightarrow> int option \<times> int option" where
  "weightLoop h i hi (w, s) =
     (if i < hi then
        weightLoop h (i + 1) hi (addN w (histAt h i), addN s (map_option (\<lambda>c. i * c) (histAt h i)))
      else (w, s))"
  by pat_completeness auto
termination
  by (relation "measure (\<lambda>(h, i, hi, ws). nat (hi - i))") auto

declare weightLoop.simps [simp del]

text \<open>
  The update \<^verbatim>\<open>(mF - mB) / (Math.log(mF) - Math.log(mB))\<close> on two means, which are
  never negative. \<^verbatim>\<open>Math.log(0)\<close> is \<^verbatim>\<open>-Infinity\<close>: with one mean 0 and the other
  positive the quotient is a finite number over an infinite one, 0; with both 0, and
  with two equal means, it is NaN (\<open>None\<close>).
\<close>

definition liTemp :: "real \<Rightarrow> real \<Rightarrow> real option" where
  "liTemp mB mF =
     (if mB = mF then None
      else if mB = 0 \<or> mF = 0 then Some 0
      else Some ((mF - mB) / (ln mF - ln mB)))"

text \<open>
  The iteration of \<^verbatim>\<open>computeLiThreshold\<close>: \<^verbatim>\<open>for (let iter = 0; iter < 50; iter++)\<close>.
  A weight that is NaN is not \<^verbatim>\<open>=== 0\<close>; when none of the two weights is 0 and one
  of them is NaN, the new threshold is NaN, the next round finds the weight 0 and the
  function returns NaN (\<open>None\<close>).
\<close>

function liLoop :: "nat list \<Rightarrow> nat \<Rightarrow> int \<Rightarrow> int option" where
  "liLoop histogram iter threshold =
     (if iter < 50 then
        (let (wB, sumB) = weightLoop histogram 0 (threshold + 1) (Some 0, Some 0);
             (wF, sumF) = weightLoop histogram (threshold + 1) 256 (Some 0, Some 0)
         in if wB = Some 0 \<or> wF = Some 0 then Some threshold
            else
              (case (wB, sumB, wF, sumF) of
                 (Some wB', Some sumB', Some wF', Some sumF') \<Rightarrow>
                   (let mB = real_of_int sumB' / real_of_int wB';
                        mF = real_of_int sumF' / real_of_int wF'
                    in (case liTemp mB mF of
                          None \<Rightarrow> None
                        | Some temp \<Rightarrow>
                            (let newThreshold = round temp
                             in if newThreshold = threshold then Some threshold
                                else liLoop histogram (Suc iter) newThreshold)))
               | _ \<Rightarrow> None))
      else Some threshold)"
  by pat_completeness auto
termination
  by (relation "measure (\<lambda>(h, iter, t). 50 - iter)") auto

declare liLoop.simps [simp del]

text \<open>
  \<^verbatim>\<open>computeLiThreshold(histogram, total)\<close>. The mean is the sum of \<open>i * histogram[i]\<close>
  over the 256 bins, divided by \<^verbatim>\<open>total\<close> (here \<open>tot\<close>). With a total of 0 the mean is NaN or infinite
  and the function returns no integer; the result is \<open>None\<close> then.
\<close>

definition computeLiThreshold :: "nat list \<Rightarrow> nat \<Rightarrow> int option" where
  "computeLiThreshold histogram tot =
     (case snd (weightLoop histogram 0 256 (Some 0, Some 0)) of
        None \<Rightarrow> None
      | Some s \<Rightarrow>
          if tot = 0 then None
          else (let mean = real_of_int s / real tot;
                    threshold = round mean
                in liLoop histogram 0 threshold))"

text \<open>
  The quantities of the iteration in the words of the specification: the weight and the
  mean of the background (bins \<open>0..t\<close>) and of the foreground (bins \<open>t+1..255\<close>), the
  mean of the whole histogram, and the new threshold.
\<close>

definition bgWeight :: "nat list \<Rightarrow> int \<Rightarrow> int" where
  "bgWeight h t = (\<Sum>k \<in> {0..<t + 1}. int (h ! nat k))"

definition fgWeight :: "nat list \<Rightarrow> int \<Rightarrow> int" where
  "fgWeight h t = (\<Sum>k \<in> {t + 1..<256}. int (h ! nat k))"

definition bgMean :: "nat list \<Rightarrow> int \<Rightarrow> real" where
  "bgMean h t = real_of_int (\<Sum>k \<in> {0..<t + 1}. k * int (h ! nat k)) / real_of_int (bgWeight h t)"

definition fgMean :: "nat list \<Rightarrow> int \<Rightarrow> real" where
  "fgMean h t = real_of_int (\<Sum>k \<in> {t + 1..<256}. k * int (h ! nat k)) / real_of_int (fgWeight h t)"

definition histMean :: "nat list \<Rightarrow> nat \<Rightarrow> real" where
  "histMean h tot = real_of_int (\<Sum>k \<in> {0..<256}. k * int (h ! nat k)) / real tot"

definition liUpdate :: "nat list \<Rightarrow> int \<Rightarrow> int" where
  "liUpdate h t =
     (if bgMean h t = 0 then 0
      else round ((fgMean h t - bgMean h t) / (ln (fgMean h t) - ln (bgMean h t))))"

definition exHist :: "nat list" where "exHist = [3, 1] @ replicate 254 0"

section \<open>The store of typed arrays\<close>

text \<open>
  The stages of the processing panel and the brush of the viewport work on typed arrays
  by reference. A store is the list of the arrays allocated so far, and the address of
  an array is its position in the list; a volume object of these functions holds the
  address of its data. Allocation appends a zero-filled array
  (\<^verbatim>\<open>new Float32Array(len)\<close>, \<^verbatim>\<open>new Uint8Array(len)\<close>), so a new address is never one
  that is in use. A write beyond the end of a typed array does nothing, as
  \<open>xs[i := v]\<close> does.
\<close>

type_synonym addr = nat

type_synonym store = "real list list"

definition alloc :: "nat \<Rightarrow> store \<Rightarrow> addr \<times> store" where
  "alloc len st = (length st, st @ [replicate len 0])"

definition arrayAt :: "store \<Rightarrow> addr \<Rightarrow> real list" where
  "arrayAt st a = st ! a"

definition writeArr :: "addr \<Rightarrow> nat \<Rightarrow> real \<Rightarrow> store \<Rightarrow> store" where
  "writeArr a i v st = st[a := (st ! a)[i := v]]"

definition setArr :: "addr \<Rightarrow> real list \<Rightarrow> store \<Rightarrow> store" where
  "setArr a xs st = st[a := xs]"

section \<open>Manual paint and erase (\<^verbatim>\<open>handleDraw\<close> of \<^verbatim>\<open>components/Viewport.tsx\<close>)\<close>

text \<open>
  The body of the innermost loop of \<^verbatim>\<open>handleDraw\<close>, for one offset:
  \<^verbatim>\<open>if (dx*dx + dy*dy + dz*dz <= r2) { const px = x + dx; ...
     if (px>=0 && px<dimX && py>=0 && py<dimY && pz>=0 && pz<dimZ) {
       const idx = pz*dimX*dimY + py*dimX + px; segVol.data[idx] = val; } }\<close>
  The viewports pass integer coordinates, an integer radius and the value 1 (brush) or
  0 (eraser), which every typed array stores as it is.
\<close>

definition paintAt ::
  "nat \<times> nat \<times> nat \<Rightarrow> int \<Rightarrow> int \<Rightarrow> int \<Rightarrow> real \<Rightarrow> int \<Rightarrow> addr \<Rightarrow> int \<Rightarrow> int \<Rightarrow> int \<Rightarrow> store \<Rightarrow> store" where
  "paintAt dims x y z val r2 a dz dy dx st =
     (case dims of (dimX, dimY, dimZ) \<Rightarrow>
        if dx * dx + dy * dy + dz * dz \<le> r2 then
          (let px = x + dx; py = y + dy; pz = z + dz
           in if px \<ge> 0 \<and> px < int dimX \<and> py \<ge> 0 \<and> py < int dimY \<and> pz \<ge> 0 \<and> pz < int dimZ then
                (let idx = pz * int dimX * int dimY + py * int dimX + px
                 in writeArr a (nat idx) val st)
              else st)
        else st)"

text \<open>
  The three loops \<^verbatim>\<open>for (let dz = -radius; dz <= radius; dz++)\<close>, \<open>dy\<close> and \<open>dx\<close> alike:
  each runs through the integers from \<open>-radius\<close> to \<open>radius\<close> in order.
\<close>

definition paintLoops ::
  "nat \<times> nat \<times> nat \<Rightarrow> int \<Rightarrow> int \<Rightarrow> int \<Rightarrow> real \<Rightarrow> int \<Rightarrow> addr \<Rightarrow> store \<Rightarrow> store" where
  "paintLoops dims x y z val radius a st =
     (let r2 = radius * radius
      in fold (\<lambda>dz. fold (\<lambda>dy. fold (\<lambda>dx. paintAt dims x y z val r2 a dz dy dx)
                                 [- radius..radius])
                      [- radius..radius])
           [- radius..radius] st)"

text \<open>
  \<^verbatim>\<open>handleDraw(x, y, z, val, radius)\<close> with the volume and the segmentation of the
  component. Without a volume it returns at once. Without a segmentation it allocates a
  zero-filled mask of the length of the volume's data, with the volume's dimensions and
  header (retagged as bytes) and the range 0 to 1. It paints into the array of the
  segmentation, whose address it does not change, and hands the segmentation object
  to \<^verbatim>\<open>onUpdateSegmentation\<close>: the result is the store and that object.
\<close>

definition handleDraw ::
  "store \<Rightarrow> (addr, 'n) VolumeData option \<Rightarrow> (addr, real) VolumeData option
     \<Rightarrow> int \<Rightarrow> int \<Rightarrow> int \<Rightarrow> real \<Rightarrow> int \<Rightarrow> store \<times> (addr, real) VolumeData option" where
  "handleDraw st volume segmentation x y z val radius =
     (case volume of
        None \<Rightarrow> (st, None)
      | Some vol \<Rightarrow>
          (let (segVol, st1) =
                 (case segmentation of
                    Some sv \<Rightarrow> (sv, st)
                  | None \<Rightarrow>
                      (let len = length (arrayAt st (data vol));
                           (a, st') = alloc len st
                       in (\<lparr> header = (header vol)(''datatypeCode'' \<mapsto> HNum 2),
                              data = a,
                              dimensions = dimensions vol,
                              vmin = 0,
                              vmax = 1 \<rparr>, st')));
               st2 = paintLoops (dimensions vol) x y z val radius (data segVol) st1
           in (st2, Some segVol)))"

text \<open>
  The offsets of the brush in the order of the loops, and those among them that pass
  the test \<open>dx\<^sup>2 + dy\<^sup>2 + dz\<^sup>2 \<le> r\<^sup>2\<close>.
\<close>

definition offsets :: "int \<Rightarrow> (int \<times> int \<times> int) list" where
  "offsets r = concat (map (\<lambda>dz. concat (map (\<lambda>dy. map (\<lambda>dx. (dx, dy, dz)) [- r..r]) [- r..r])) [- r..r])"

definition ballOffsets :: "int \<Rightarrow> (int \<times> int \<times> int) list" where
  "ballOffsets r = filter (\<lambda>(dx, dy, dz). dx * dx + dy * dy + dz * dz \<le> r * r) (offsets r)"

text \<open>The flat index of a voxel, and the voxels inside the volume.\<close>

definition voxelIndex :: "nat \<times> nat \<times> nat \<Rightarrow> int \<times> int \<times> int \<Rightarrow> nat" where
  "voxelIndex dims p =
     (case (dims, p) of ((dimX, dimY, dimZ), (px, py, pz)) \<Rightarrow>
        nat (pz * int dimX * int dimY + py * int dimX + px))"

definition inVolume :: "nat \<times> nat \<times> nat \<Rightarrow> int \<times> int \<times> int \<Rightarrow> bool" where
  "inVolume dims p =
     (case (dims, p) of ((dimX, dimY, dimZ), (px, py, pz)) \<Rightarrow>
        0 \<le> px \<and> px < int dimX \<and> 0 \<le> py \<and> py < int dimY \<and> 0 \<le> pz \<and> pz < int dimZ)"

text \<open>The voxels the brush reaches from the centre \<open>(x, y, z)\<close>: centre plus offset, inside.\<close>

definition brushVoxels :: "nat \<times> nat \<times> nat \<Rightarrow> int \<Rightarrow> int \<Rightarrow> int \<Rightarrow> int \<Rightarrow> (int \<times> int \<times> int) list" where
  "brushVoxels dims x y z r =
     filter (inVolume dims) (map (\<lambda>(dx, dy, dz). (x + dx, y + dy, z + dz)) (ballOffsets r))"

text \<open>Membership in the brush in the words of the specification.\<close>

definition inBrush :: "int \<Rightarrow> int \<Rightarrow> int \<Rightarrow> int \<Rightarrow> int \<times> int \<times> int \<Rightarrow> bool" where
  "inBrush x y z r p =
     (case p of (px, py, pz) \<Rightarrow>
        - r \<le> px - x \<and> px - x \<le> r \<and> - r \<le> py - y \<and> py - y \<le> r \<and> - r \<le> pz - z \<and> pz - z \<le> r \<and>
        (px - x) * (px - x) + (py - y) * (py - y) + (pz - z) * (pz - z) \<le> r * r)"

text \<open>
  The mask the brush paints on: the array of the segmentation, or the zero-filled array
  \<^verbatim>\<open>handleDraw\<close> allocates when there is none.
\<close>

definition maskBefore :: "store \<Rightarrow> (addr, 'n) VolumeData \<Rightarrow> (addr, real) VolumeData option \<Rightarrow> real list" where
  "maskBefore st vol seg =
     (case seg of Some sv \<Rightarrow> arrayAt st (data sv)
      | None \<Rightarrow> replicate (length (arrayAt st (data vol))) 0)"

text \<open>The brush lies inside the volume: the centre is at least \<open>r\<close> away from every face.\<close>

definition interior :: "nat \<times> nat \<times> nat \<Rightarrow> int \<Rightarrow> int \<Rightarrow> int \<Rightarrow> int \<Rightarrow> bool" where
  "interior dims x y z r =
     (case dims of (dimX, dimY, dimZ) \<Rightarrow>
        r \<le> x \<and> x + r < int dimX \<and> r \<le> y \<and> y + r < int dimY \<and> r \<le> z \<and> z + r < int dimZ)"

definition volumeSize :: "nat \<times> nat \<times> nat \<Rightarrow> nat" where
  "volumeSize dims = (case dims of (dimX, dimY, dimZ) \<Rightarrow> dimX * dimY * dimZ)"

definition exStore :: store where "exStore = [replicate 27 5]"

definition exVolRef :: "(addr, real) VolumeData" where
  "exVolRef = \<lparr> header = Map.empty, data = 0, dimensions = (3, 3, 3), vmin = 5, vmax = 5 \<rparr>"

section \<open>Segmentation engine (\<^verbatim>\<open>runSegmentation\<close> of \<^verbatim>\<open>components/ProcessingPanel.tsx\<close>)\<close>

text \<open>
  The loop of \<^verbatim>\<open>computeOtsuThreshold(histogram, total)\<close> over the bins \<open>t = 0..255\<close>, with
  the state \<open>(sumB, wB, maxVar, threshold)\<close>; \<open>sm\<close> (\<^verbatim>\<open>sum\<close>) is the sum of \<open>i * histogram[i]\<close>.
  The histogram is an \<^verbatim>\<open>Int32Array(256)\<close> at both calls. \<^verbatim>\<open>continue\<close> goes on with
  the next bin, \<^verbatim>\<open>break\<close> returns the threshold found so far. The sums of counts are
  integers far below \<open>2^53\<close>, which binary64 holds exactly; the two means and the
  variance between the classes are quotients and products of binary64 numbers.
\<close>

function otsuLoop :: "nat list \<Rightarrow> int \<Rightarrow> int \<Rightarrow> nat \<Rightarrow> int \<times> int \<times> jsval \<times> nat \<Rightarrow> nat" where
  "otsuLoop h tot sm t (sumB, wB, maxVar, threshold) =
     (if t < 256 then
        (let wB' = wB + int (h ! t)
         in if wB' = 0 then otsuLoop h tot sm (Suc t) (sumB, wB', maxVar, threshold)
            else
              (let wF = tot - wB'
               in if wF = 0 then threshold
                  else
                    (let sumB' = sumB + int t * int (h ! t);
                         mB = jsDiv (num (real_of_int sumB')) (num (real_of_int wB'));
                         mF = jsDiv (num (real_of_int (sm - sumB'))) (num (real_of_int wF));
                         varBetween =
                           jsMul (jsMul (jsMul (num (real_of_int wB')) (num (real_of_int wF)))
                                    (jsSub mB mF))
                             (jsSub mB mF)
                     in if jsGt varBetween maxVar
                        then otsuLoop h tot sm (Suc t) (sumB', wB', varBetween, t)
                        else otsuLoop h tot sm (Suc t) (sumB', wB', maxVar, threshold))))
      else threshold)"
  by pat_completeness auto
termination
  by (relation "measure (\<lambda>(h, tot, sm, t, s). 256 - t)") auto

declare otsuLoop.simps [simp del]

definition computeOtsuThreshold :: "nat list \<Rightarrow> nat \<Rightarrow> nat" where
  "computeOtsuThreshold histogram tot =
     (let sm = (\<Sum>i \<leftarrow> [0..<256]. int i * int (histogram ! i))
      in otsuLoop histogram (int tot) sm 0 (0, 0, num 0, 0))"

text \<open>The methods the segmentation panel offers.\<close>

datatype segMethod =
  ManualDraw | Binary | BinaryInv | Truncate | RangePass | Otsu | Li | MultiOtsu | LocalAdaptive

text \<open>
  The thresholds of a run. The manual methods take them from the panel
  (\<^verbatim>\<open>manualThreshold\<close>, \<^verbatim>\<open>manualUpper\<close>); the automatic ones compute them from the
  histogram of the volume: \<^verbatim>\<open>min + thresholdBin / step\<close>, a quotient and a sum of
  binary64 numbers. Li's solver may return NaN (\<open>None\<close>), and then the threshold is NaN.
\<close>

definition segThresholds ::
  "segMethod \<Rightarrow> real list \<Rightarrow> real \<Rightarrow> real \<Rightarrow> real \<Rightarrow> real \<Rightarrow> jsval \<times> jsval" where
  "segThresholds m dat mn mx manualThreshold manualUpper =
     (if m = Otsu \<or> m = Li \<or> m = MultiOtsu then
        (let (histogram, step) = getHistogram (nums dat) (num mn) (num mx);
             tot = sum_list histogram
         in if m = Otsu then
              (jsAdd (num mn) (jsDiv (num (real (computeOtsuThreshold histogram tot))) step),
               num manualUpper)
            else if m = Li then
              ((case computeLiThreshold histogram tot of
                  None \<Rightarrow> NaN
                | Some thresholdBin \<Rightarrow> jsAdd (num mn) (jsDiv (num (real_of_int thresholdBin)) step)),
               num manualUpper)
            else
              (let t1Bin = computeOtsuThreshold histogram tot;
                   hist2 = map (\<lambda>i. if t1Bin \<le> i then histogram ! i else 0) [0..<256];
                   total2 = (\<Sum>i \<leftarrow> [t1Bin..<256]. histogram ! i);
                   t2Bin = computeOtsuThreshold hist2 total2
               in (jsAdd (num mn) (jsDiv (num (real t1Bin)) step),
                   jsAdd (num mn) (jsDiv (num (real (max (t1Bin + 1) t2Bin))) step))))
      else (num manualThreshold, num manualUpper))"

text \<open>
  The comparisons of a sample with a threshold, \<^verbatim>\<open>val >= t\<close>, \<^verbatim>\<open>val <= t\<close> and
  \<^verbatim>\<open>val < t\<close>: false when the threshold is NaN.
\<close>

definition geT :: "real \<Rightarrow> jsval \<Rightarrow> bool" where
  "geT val t = jsGe (num val) t"

definition leT :: "real \<Rightarrow> jsval \<Rightarrow> bool" where
  "leT val t = jsLe (num val) t"

definition ltT :: "real \<Rightarrow> jsval \<Rightarrow> bool" where
  "ltT val t = jsLt (num val) t"

text \<open>
  The body of the inner loop for voxel \<open>j\<close>: it reads \<^verbatim>\<open>data[j]\<close> and writes a label
  into \<^verbatim>\<open>mask[j]\<close> when the rule of the method holds.
\<close>

definition segVoxel ::
  "segMethod \<Rightarrow> jsval \<Rightarrow> jsval \<Rightarrow> addr \<Rightarrow> addr \<Rightarrow> nat \<Rightarrow> store \<Rightarrow> store" where
  "segVoxel m threshold upperThreshold dataA maskA j st =
     (let val = arrayAt st dataA ! j
      in if m = Binary \<or> m = Truncate then
           (if geT val threshold then writeArr maskA j 1 st else st)
         else if m = BinaryInv then
           (if leT val threshold then writeArr maskA j 1 st else st)
         else if m = RangePass then
           (if geT val threshold \<and> leT val upperThreshold then writeArr maskA j 1 st else st)
         else if m = Otsu \<or> m = Li then
           (if geT val threshold then writeArr maskA j 1 st else st)
         else if m = MultiOtsu then
           (if geT val threshold \<and> ltT val upperThreshold then writeArr maskA j 1 st
            else if geT val upperThreshold then writeArr maskA j 2 st
            else st)
         else if m = LocalAdaptive then
           (if geT val threshold then writeArr maskA j 3 st else st)
         else st)"

text \<open>
  The chunked loop of the stages:
  \<^verbatim>\<open>for (let i = 0; i < len; i += CHUNK_SIZE) { const end = Math.min(i + CHUNK_SIZE, len);
     for (let j = i; j < end; j++) { body } ... progress ... }\<close>
  with \<^verbatim>\<open>CHUNK_SIZE = 500000\<close>. The progress report between two chunks changes no array.
\<close>

function chunkLoop :: "nat \<Rightarrow> nat \<Rightarrow> (nat \<Rightarrow> 's \<Rightarrow> 's) \<Rightarrow> 's \<Rightarrow> 's" where
  "chunkLoop len i body s =
     (if i < len then
        chunkLoop len (i + 500000) body (fold body [i..<min (i + 500000) len] s)
      else s)"
  by pat_completeness auto
termination
  by (relation "measure (\<lambda>(len, i, body, s). len - i)") auto

declare chunkLoop.simps [simp del]

text \<open>
  \<^verbatim>\<open>runSegmentation\<close> with the volume of the panel, the selected method and the two manual
  thresholds. Without a volume, and for manual drawing, it returns without a mask. Else
  it allocates the mask, computes the thresholds, labels the voxels and hands the new
  segmentation (header retagged as bytes, dimensions of the volume, \<^verbatim>\<open>min: 0\<close>,
  \<^verbatim>\<open>max: 255\<close>) to \<^verbatim>\<open>onUpdateSegmentation\<close>.
\<close>

definition runSegmentation ::
  "store \<Rightarrow> (addr, real) VolumeData option \<Rightarrow> segMethod \<Rightarrow> real \<Rightarrow> real
     \<Rightarrow> store \<times> (addr, real) VolumeData option" where
  "runSegmentation st volume m manualThreshold manualUpper =
     (case volume of
        None \<Rightarrow> (st, None)
      | Some vol \<Rightarrow>
          if m = ManualDraw then (st, None)
          else
            (let dat = arrayAt st (data vol);
                 len = length dat;
                 (mask, st1) = alloc len st;
                 (threshold, upperThreshold) =
                    segThresholds m dat (vmin vol) (vmax vol) manualThreshold manualUpper;
                 st2 = chunkLoop len 0 (segVoxel m threshold upperThreshold (data vol) mask) st1
             in (st2, Some \<lparr> header = (header vol)(''datatypeCode'' \<mapsto> HNum 2),
                             data = mask,
                             dimensions = dimensions vol,
                             vmin = 0,
                             vmax = 255 \<rparr>)))"

text \<open>The label a voxel of value \<open>val\<close> gets in a fresh mask: the decision rule of the method.\<close>

definition segLabel :: "segMethod \<Rightarrow> jsval \<Rightarrow> jsval \<Rightarrow> real \<Rightarrow> real" where
  "segLabel m threshold upperThreshold val =
     (case m of
        ManualDraw \<Rightarrow> 0
      | Binary \<Rightarrow> if geT val threshold then 1 else 0
      | Truncate \<Rightarrow> if geT val threshold then 1 else 0
      | BinaryInv \<Rightarrow> if leT val threshold then 1 else 0
      | RangePass \<Rightarrow> if geT val threshold \<and> leT val upperThreshold then 1 else 0
      | Otsu \<Rightarrow> if geT val threshold then 1 else 0
      | Li \<Rightarrow> if geT val threshold then 1 else 0
      | MultiOtsu \<Rightarrow> if geT val threshold \<and> ltT val upperThreshold then 1
                     else if geT val upperThreshold then 2 else 0
      | LocalAdaptive \<Rightarrow> if geT val threshold then 3 else 0)"

definition exStore2 :: store where "exStore2 = [[0, 1]]"

definition exVol2 :: "(addr, real) VolumeData" where
  "exVol2 = \<lparr> header = Map.empty, data = 0, dimensions = (2, 1, 1), vmin = 0, vmax = 1 \<rparr>"

section \<open>Intensity transform pipeline (\<^verbatim>\<open>runProcessing\<close> of \<^verbatim>\<open>components/ProcessingPanel.tsx\<close>)\<close>

text \<open>
  The stages below are functions on the store. \<open>dataA\<close> is the address of the data of
  the input volume and \<open>newData\<close> the address of the output array; every assignment
  \<^verbatim>\<open>newData[j] = e\<close> of the source is a \<open>writeArr newData j e\<close>, and every read
  \<^verbatim>\<open>data[j]\<close> a read of the array at \<open>dataA\<close> in the store of that moment. Global
  histogram equalization computes in binary64 arithmetic and rounds what it stores to
  binary32. The results of the other stages are exact reals: a quotient by zero, which
  is NaN or infinite in JavaScript, has no meaning there, and the places where one can
  arise are named at each stage. The neighbourhood stages read at indices computed from
  the dimensions; these lie inside the arrays when
  \<open>data.length = width * height * depth\<close>, the invariant of a volume, and a read beyond
  the end (\<^verbatim>\<open>undefined\<close> in JavaScript) has no meaning here either.
\<close>

datatype procMethod =
  Clahe | HistMatch | HistEq | GammaBright | GammaDark | Sigmoid | Unsharp | Gaussian | Median3d | N4Bias

text \<open>\<^verbatim>\<open>Math.max(0, Math.min(255, bin))\<close> as an index.\<close>

definition clampBin :: "int \<Rightarrow> nat" where
  "clampBin bin = nat (max 0 (min 255 bin))"

text \<open>The bin of a sample in the transforms: \<^verbatim>\<open>Math.floor(((v - min) / range) * 255)\<close>.\<close>

definition bin255 :: "real \<Rightarrow> real \<Rightarrow> real \<Rightarrow> int" where
  "bin255 mn rng v = \<lfloor>((v - mn) / rng) * 255\<rfloor>"

subsection \<open>Global histogram equalization\<close>

text \<open>
  \<^verbatim>\<open>for (let i = 0; i < 256; i++) { sum += histogram[i]; cdf[i] = sum; }\<close> with the state
  \<open>(sum, cdf)\<close>; the final sum is \<^verbatim>\<open>total\<close>.
\<close>

definition cdfLoop :: "nat list \<Rightarrow> nat \<times> nat list" where
  "cdfLoop histogram =
     fold (\<lambda>i (sm, cdf). (sm + histogram ! i, cdf[i := sm + histogram ! i]))
       [0..<256] (0, replicate 256 0)"

text \<open>
  The bin of a sample, \<^verbatim>\<open>Math.floor(((data[j] - min) / range) * 255)\<close>, and
  \<^verbatim>\<open>Math.max(0, Math.min(255, bin))\<close> as an index into \<^verbatim>\<open>cdf\<close>: 0 for \<^verbatim>\<open>-Infinity\<close>,
  255 for \<^verbatim>\<open>Infinity\<close>, and no index for NaN.
\<close>

definition histEqBin :: "jsval \<Rightarrow> jsval \<Rightarrow> jsval \<Rightarrow> jsval" where
  "histEqBin mn rng v = jsFloor (jsMul (jsDiv (jsSub v mn) rng) (num 255))"

fun clampIndex :: "jsval \<Rightarrow> nat option" where
  "clampIndex NaN = None"
| "clampIndex (Num NegInf) = Some 0"
| "clampIndex (Num PosInf) = Some 255"
| "clampIndex (Num (Fin b)) = Some (clampBin \<lfloor>b\<rfloor>)"

text \<open>
  \<^verbatim>\<open>const normVal = cdf[Math.max(0, Math.min(255, bin))] / total\<close>. The counts are
  integers below \<open>2^31\<close>. The read at NaN gives \<^verbatim>\<open>undefined\<close>, and the quotient is NaN
  then; with \<open>tot = 0\<close> (no sample was counted) it is NaN at every index.
\<close>

definition histEqNorm :: "nat list \<Rightarrow> nat \<Rightarrow> jsval \<Rightarrow> jsval" where
  "histEqNorm cdf tot bin =
     (case clampIndex bin of
        None \<Rightarrow> NaN
      | Some b \<Rightarrow> jsDiv (num (real (cdf ! b))) (num (real tot)))"

text \<open>
  The number the body stores for a sample \<open>v\<close>: \<^verbatim>\<open>newData[j] = min + normVal * range\<close>,
  rounded to binary32 by the store into the \<^verbatim>\<open>Float32Array\<close>.
\<close>

definition histEqOut :: "jsval \<Rightarrow> jsval \<Rightarrow> nat list \<Rightarrow> nat \<Rightarrow> jsval \<Rightarrow> jsval" where
  "histEqOut mn rng cdf tot v =
     (let bin = histEqBin mn rng v;
          normVal = histEqNorm cdf tot bin
      in jsFround (jsAdd mn (jsMul normVal rng)))"

text \<open>
  The body for voxel \<open>j\<close>. The arrays of the store hold finite samples; a stored number
  that is NaN or infinite is not a sample of this model, which puts 0 in its place.
  The theorem on the values of this stage is for volumes on which every stored number
  is finite.
\<close>

fun sampleOf :: "jsval \<Rightarrow> real" where
  "sampleOf (Num (Fin x)) = x"
| "sampleOf v = 0"

definition histEqVoxel :: "jsval \<Rightarrow> jsval \<Rightarrow> nat list \<Rightarrow> nat \<Rightarrow> addr \<Rightarrow> addr \<Rightarrow> nat \<Rightarrow> store \<Rightarrow> store" where
  "histEqVoxel mn rng cdf tot dataA newData j st =
     writeArr newData j (sampleOf (histEqOut mn rng cdf tot (num (arrayAt st dataA ! j)))) st"

text \<open>
  The stage: the histogram of the data, its running sums, and the body for every voxel.
  \<open>rng\<close> is \<^verbatim>\<open>const range = max - min || 1\<close>.
\<close>

definition histEqStage :: "real \<Rightarrow> real \<Rightarrow> addr \<Rightarrow> addr \<Rightarrow> store \<Rightarrow> store" where
  "histEqStage mn mx dataA newData st =
     (let dat = arrayAt st dataA;
          (histogram, step) = getHistogram (nums dat) (num mn) (num mx);
          (tot, cdf) = cdfLoop histogram;
          rng = jsOrOne (jsSub (num mx) (num mn))
      in chunkLoop (length dat) 0 (histEqVoxel (num mn) rng cdf tot dataA newData) st)"

subsection \<open>Slice-wise CLAHE\<close>

text \<open>\<^verbatim>\<open>data.subarray(begin, end)\<close>: a view, clipped to the array.\<close>

definition subarray :: "real list \<Rightarrow> nat \<Rightarrow> nat \<Rightarrow> real list" where
  "subarray d b e = take (e - b) (drop b d)"

text \<open>A number stored into an \<^verbatim>\<open>Int32Array\<close>: truncated towards zero, modulo \<open>2^32\<close>.\<close>

definition toInt32 :: "real \<Rightarrow> int" where
  "toInt32 x = (let t = (if x \<ge> 0 then \<lfloor>x\<rfloor> else \<lceil>x\<rceil>) in (t + 2147483648) mod 4294967296 - 2147483648)"

text \<open>
  The range of a slice, from \<^verbatim>\<open>Infinity\<close> and \<^verbatim>\<open>-Infinity\<close>; it is read for the
  voxels of the slice only, and is finite when there is one.
\<close>

definition finite_part :: "jsnum \<Rightarrow> real" where
  "finite_part n = (case n of Fin r \<Rightarrow> r | _ \<Rightarrow> 0)"

definition sliceHist :: "real list \<Rightarrow> real \<Rightarrow> real \<Rightarrow> int list" where
  "sliceHist sliceData sMin sRange =
     fold (\<lambda>k hist. (let b = clampBin (bin255 sMin sRange (sliceData ! k)) in hist[b := hist ! b + 1]))
       [0..<length sliceData] (replicate 256 0)"

text \<open>
  \<^verbatim>\<open>if (hist[k] > limit) { excess += hist[k] - limit; hist[k] = limit; }\<close> for the 256
  bins, then \<^verbatim>\<open>hist[k] += increment\<close>, then the running sum divided by the slice
  length.
\<close>

definition clipHist :: "real \<Rightarrow> int list \<Rightarrow> real \<times> int list" where
  "clipHist limit hist0 =
     fold (\<lambda>k (excess, hist).
             if real_of_int (hist ! k) > limit
             then (excess + (real_of_int (hist ! k) - limit), hist[k := toInt32 limit])
             else (excess, hist))
       [0..<256] (0, hist0)"

definition spreadHist :: "real \<Rightarrow> int list \<Rightarrow> int list" where
  "spreadHist increment hist0 =
     fold (\<lambda>k hist. hist[k := toInt32 (real_of_int (hist ! k) + increment)]) [0..<256] hist0"

definition sliceCdf :: "int list \<Rightarrow> nat \<Rightarrow> real list" where
  "sliceCdf hist n =
     snd (fold (\<lambda>k (sm, cdf). (sm + hist ! k, cdf[k := real_of_int (sm + hist ! k) / real n]))
            [0..<256] (0, replicate 256 0))"

definition claheSlice :: "real \<Rightarrow> nat \<Rightarrow> nat \<Rightarrow> addr \<Rightarrow> addr \<Rightarrow> nat \<Rightarrow> store \<Rightarrow> store" where
  "claheSlice clipLimit width height dataA newData z st =
     (let offset = z * width * height;
          sliceEnd = offset + width * height;
          sliceData = subarray (arrayAt st dataA) offset sliceEnd;
          sMin = finite_part (foldl stepMin PosInf sliceData);
          sMax = finite_part (foldl stepMax NegInf sliceData);
          sRange = orOne (sMax - sMin);
          hist = sliceHist sliceData sMin sRange;
          limit = (real (length sliceData) / 256) * clipLimit;
          (excess, hist1) = clipHist limit hist;
          increment = excess / 256;
          hist2 = spreadHist increment hist1;
          cdf = sliceCdf hist2 (length sliceData)
      in fold (\<lambda>k st'.
                 writeArr newData (offset + k)
                   (sMin + cdf ! clampBin (bin255 sMin sRange (subarray (arrayAt st' dataA) offset sliceEnd ! k)) * sRange)
                   st')
           [0..<length sliceData] st)"

definition claheStage :: "real \<Rightarrow> nat \<times> nat \<times> nat \<Rightarrow> addr \<Rightarrow> addr \<Rightarrow> store \<Rightarrow> store" where
  "claheStage clipLimit dims dataA newData st =
     (case dims of (width, height, depth) \<Rightarrow>
        fold (claheSlice clipLimit width height dataA newData) [0..<depth] st)"

subsection \<open>Gamma correction and sigmoid stretch\<close>

text \<open>
  \<^verbatim>\<open>Math.pow(norm, gamma)\<close> for \<open>norm \<ge> 0\<close>. The panel sets \<open>gamma\<close> to 0.6 or 1.5 and
  its slider keeps it between 0.1 and 3; for a negative \<open>gamma\<close> and \<open>norm = 0\<close> the
  JavaScript value is infinite, which this function does not show.
\<close>

definition jsPow :: "real \<Rightarrow> real \<Rightarrow> real" where
  "jsPow x y = (if y = 0 then 1 else if x = 0 then 0 else x powr y)"

definition gammaVoxel :: "real \<Rightarrow> real \<Rightarrow> real \<Rightarrow> addr \<Rightarrow> addr \<Rightarrow> nat \<Rightarrow> store \<Rightarrow> store" where
  "gammaVoxel mn rng gamma dataA newData j st =
     (let norm = max 0 ((arrayAt st dataA ! j - mn) / rng)
      in writeArr newData j (mn + jsPow norm gamma * rng) st)"

definition sigmoidVoxel :: "real \<Rightarrow> real \<Rightarrow> real \<Rightarrow> real \<Rightarrow> addr \<Rightarrow> addr \<Rightarrow> nat \<Rightarrow> store \<Rightarrow> store" where
  "sigmoidVoxel mn rng gain cutoff dataA newData j st =
     (let u = (arrayAt st dataA ! j - mn) / rng;
          val = 1 / (1 + exp (- gain * (u - cutoff)))
      in writeArr newData j (mn + val * rng) st)"

subsection \<open>Separable smoothing\<close>

text \<open>
  Three passes with the kernel \<open>[0.2, 0.6, 0.2]\<close>; \<^verbatim>\<open>buf\<close> is a scratch array the stage
  allocates, filled from the data and refilled from \<^verbatim>\<open>newData\<close> after the first two
  passes. \<open>off\<close> is the distance of the two neighbours: 1, \<open>width\<close>, \<open>width * height\<close>.
\<close>

definition blurAt :: "addr \<Rightarrow> addr \<Rightarrow> nat \<Rightarrow> nat \<Rightarrow> store \<Rightarrow> store" where
  "blurAt buf newData off i st =
     writeArr newData i
       (arrayAt st buf ! (i - off) * (2 / 10) + arrayAt st buf ! i * (6 / 10) + arrayAt st buf ! (i + off) * (2 / 10))
       st"

definition gaussianStage :: "nat \<times> nat \<times> nat \<Rightarrow> addr \<Rightarrow> addr \<Rightarrow> store \<Rightarrow> store" where
  "gaussianStage dims dataA newData st =
     (case dims of (width, height, depth) \<Rightarrow>
        (let len = length (arrayAt st dataA);
             (buf, st1) = alloc len st;
             st2 = setArr buf (arrayAt st1 dataA) st1;
             idx = (\<lambda>x y z. z * width * height + y * width + x);
             st3 = fold (\<lambda>z. fold (\<lambda>y. fold (\<lambda>x. blurAt buf newData 1 (idx x y z)) [1..<width - 1])
                                  [0..<height]) [0..<depth] st2;
             st4 = setArr buf (arrayAt st3 newData) st3;
             st5 = fold (\<lambda>z. fold (\<lambda>y. fold (\<lambda>x. blurAt buf newData width (idx x y z)) [0..<width])
                                  [1..<height - 1]) [0..<depth] st4;
             st6 = setArr buf (arrayAt st5 newData) st5;
             sliceSize = width * height
         in fold (\<lambda>z. fold (\<lambda>y. fold (\<lambda>x. blurAt buf newData sliceSize (idx x y z)) [0..<width])
                               [0..<height]) [1..<depth - 1] st6))"

subsection \<open>Unsharp mask\<close>

definition unsharpStage :: "real \<Rightarrow> nat \<times> nat \<times> nat \<Rightarrow> addr \<Rightarrow> addr \<Rightarrow> store \<Rightarrow> store" where
  "unsharpStage strength dims dataA newData st =
     (case dims of (width, height, depth) \<Rightarrow>
        (let len = length (arrayAt st dataA);
             (blurred, st1) = alloc len st;
             (buf, st2) = alloc len st1;
             st3 = setArr buf (arrayAt st2 dataA) st2;
             st4 = fold (\<lambda>i st'.
                           writeArr blurred i
                             ((arrayAt st' buf ! (i - 1) + arrayAt st' buf ! i + arrayAt st' buf ! (i + 1) +
                               arrayAt st' buf ! (i - width) + arrayAt st' buf ! (i + width)) / 5) st')
                     [width + 1..<len - width - 1] st3
         in fold (\<lambda>i st'.
                    (let mask = arrayAt st' dataA ! i - arrayAt st' blurred ! i
                     in writeArr newData i (arrayAt st' dataA ! i + strength * mask) st'))
              [0..<len] st4))"

subsection \<open>Histogram matching\<close>

text \<open>
  The normalised cumulative histogram, a \<^verbatim>\<open>Float32Array(256)\<close>: the running sums
  divided by their total. With a total of 0 every entry is NaN (\<open>None\<close>).
\<close>

definition normCdf :: "nat list \<Rightarrow> real list option" where
  "normCdf histogram =
     (let (sm, cdf) = cdfLoop histogram
      in if sm = 0 then None else Some (map (\<lambda>c. real c / real sm) cdf))"

text \<open>
  The reference bin closest to \<open>srcVal\<close>:
  \<^verbatim>\<open>let closestIdx = 0, minDiff = 1; for (j < 256) { const diff = Math.abs(cdfRef[j] - srcVal);
     if (diff < minDiff) { minDiff = diff; closestIdx = j; } }\<close>
\<close>

definition closestBin :: "real list \<Rightarrow> real \<Rightarrow> nat" where
  "closestBin cdfRef srcVal =
     fst (fold (\<lambda>j (closestIdx, minDiff).
                  (let diff = \<bar>cdfRef ! j - srcVal\<bar>
                   in if diff < minDiff then (j, diff) else (closestIdx, minDiff)))
            [0..<256] (0, 1))"

text \<open>The mapping table. A comparison with NaN is false, so a NaN table leaves every entry 0.\<close>

definition matchMapping :: "real list option \<Rightarrow> real list option \<Rightarrow> nat list" where
  "matchMapping cdfSrc cdfRef =
     (case (cdfSrc, cdfRef) of
        (Some cs, Some cr) \<Rightarrow> map (\<lambda>i. closestBin cr (cs ! i)) [0..<256]
      | _ \<Rightarrow> replicate 256 0)"

definition histMatchStage ::
  "real \<Rightarrow> real \<Rightarrow> real list \<Rightarrow> real \<Rightarrow> real \<Rightarrow> addr \<Rightarrow> addr \<Rightarrow> store \<Rightarrow> store" where
  "histMatchStage mn mx refData refMin refMax dataA newData st =
     (let dat = arrayAt st dataA;
          rng = orOne (mx - mn);
          cdfSrc = normCdf (fst (getHistogram (nums dat) (num mn) (num mx)));
          cdfRef = normCdf (fst (getHistogram (nums refData) (num refMin) (num refMax)));
          mapping = matchMapping cdfSrc cdfRef;
          refRange = orOne (refMax - refMin)
      in fold (\<lambda>i st'.
                 (let bin = bin255 mn rng (arrayAt st' dataA ! i);
                      mappedBin = mapping ! clampBin bin
                  in writeArr newData i (refMin + (real mappedBin / 255) * refRange) st'))
           [0..<length dat] st)"

subsection \<open>Bias-field approximation\<close>

text \<open>
  The coordinates of voxel \<open>i\<close> are taken apart with \<open>width\<close> and \<open>height\<close>, which are
  not 0 when the volume has a voxel and \<open>data.length = width * height * depth\<close>.
\<close>

definition n4Voxel :: "nat \<times> nat \<times> nat \<Rightarrow> addr \<Rightarrow> addr \<Rightarrow> nat \<Rightarrow> store \<Rightarrow> store" where
  "n4Voxel dims dataA newData i st =
     (case dims of (width, height, depth) \<Rightarrow>
        (let z = i div (width * height);
             rem = i mod (width * height);
             y = rem div width;
             x = rem mod width;
             dx = (real x - real width / 2) / (real width / 2);
             dy = (real y - real height / 2) / (real height / 2);
             dz = (real z - real depth / 2) / (real depth / 2);
             distSq = dx * dx + dy * dy + dz * dz;
             bias = 1 - (3 / 10) * distSq
         in writeArr newData i (arrayAt st dataA ! i / max (1 / 10) bias) st))"

subsection \<open>Slice-wise 3 by 3 median\<close>

definition medianAt :: "nat \<Rightarrow> addr \<Rightarrow> addr \<Rightarrow> nat \<Rightarrow> nat \<Rightarrow> store \<Rightarrow> store" where
  "medianAt width dataA newData offset i st =
     (let d = arrayAt st dataA;
          neighbors =
            [d ! (offset + i - width - 1), d ! (offset + i - width), d ! (offset + i - width + 1),
             d ! (offset + i - 1), d ! (offset + i), d ! (offset + i + 1),
             d ! (offset + i + width - 1), d ! (offset + i + width), d ! (offset + i + width + 1)]
      in writeArr newData (offset + i) (sort neighbors ! 4) st)"

definition medianStage :: "nat \<times> nat \<times> nat \<Rightarrow> addr \<Rightarrow> addr \<Rightarrow> store \<Rightarrow> store" where
  "medianStage dims dataA newData st =
     (case dims of (width, height, depth) \<Rightarrow>
        fold (\<lambda>z. fold (\<lambda>y. fold (\<lambda>x. medianAt width dataA newData (z * width * height) (y * width + x))
                                  [1..<width - 1])
                       [1..<height - 1])
          [0..<depth] st)"

subsection \<open>The stage runner\<close>

text \<open>
  \<^verbatim>\<open>for (let i = 0; i < len; i += 10)\<close>: the new range, from every tenth output element.
\<close>

function rangeLoop :: "real list \<Rightarrow> nat \<Rightarrow> jsnum \<times> jsnum \<Rightarrow> jsnum \<times> jsnum" where
  "rangeLoop newData i (newMin, newMax) =
     (if i < length newData then
        rangeLoop newData (i + 10)
          (if lt (Fin (newData ! i)) newMin then Fin (newData ! i) else newMin,
           if lt newMax (Fin (newData ! i)) then Fin (newData ! i) else newMax)
      else (newMin, newMax))"
  by pat_completeness auto
termination
  by (relation "measure (\<lambda>(d, i, s). length d - i)") auto

declare rangeLoop.simps [simp del]

definition runStage ::
  "procMethod \<Rightarrow> real \<Rightarrow> real \<Rightarrow> (addr, real) VolumeData \<Rightarrow> real list \<times> real \<times> real
     \<Rightarrow> addr \<Rightarrow> store \<Rightarrow> store" where
  "runStage procMethod param1 param2 vol reference newData st =
     (let dataA = data vol; mn = vmin vol; mx = vmax vol;
          len = length (arrayAt st dataA);
          rng = orOne (mx - mn)
      in case procMethod of
           HistEq \<Rightarrow> histEqStage mn mx dataA newData st
         | Clahe \<Rightarrow> claheStage param1 (dimensions vol) dataA newData st
         | GammaBright \<Rightarrow> chunkLoop len 0 (gammaVoxel mn rng param1 dataA newData) st
         | GammaDark \<Rightarrow> chunkLoop len 0 (gammaVoxel mn rng param1 dataA newData) st
         | Sigmoid \<Rightarrow> chunkLoop len 0 (sigmoidVoxel mn rng param1 param2 dataA newData) st
         | Gaussian \<Rightarrow> gaussianStage (dimensions vol) dataA newData st
         | Unsharp \<Rightarrow> unsharpStage param1 (dimensions vol) dataA newData st
         | HistMatch \<Rightarrow>
             (case reference of (refData, refMin, refMax) \<Rightarrow>
                histMatchStage mn mx refData refMin refMax dataA newData st)
         | N4Bias \<Rightarrow> fold (n4Voxel (dimensions vol) dataA newData) [0..<len] st
         | Median3d \<Rightarrow> medianStage (dimensions vol) dataA newData st)"

text \<open>
  \<^verbatim>\<open>runProcessing\<close> with the volume of the panel, the selected method, its two
  parameters and the reference volume of histogram matching. It allocates \<^verbatim>\<open>newData\<close>,
  copies the data into it, runs the stage, finds the new range and hands
  \<^verbatim>\<open>{ ...volume, data: newData, min: newMin, max: newMax }\<close> to \<^verbatim>\<open>onUpdateVolume\<close>.
  Without a volume it returns at once; histogram matching without a reference throws
  before it writes, and the handler reports the failure: no volume is handed over.
\<close>

definition runProcessing ::
  "store \<Rightarrow> (addr, real) VolumeData option \<Rightarrow> procMethod \<Rightarrow> real \<Rightarrow> real
     \<Rightarrow> (addr, real) VolumeData option \<Rightarrow> store \<times> (addr, jsnum) VolumeData option" where
  "runProcessing st volume procMethod param1 param2 referenceVolume =
     (case volume of
        None \<Rightarrow> (st, None)
      | Some vol \<Rightarrow>
          (let len = length (arrayAt st (data vol));
               (newData, st1) = alloc len st;
               st2 = setArr newData (arrayAt st1 (data vol)) st1
           in if procMethod = HistMatch \<and> referenceVolume = None then (st2, None)
              else
                (let reference =
                       (case referenceVolume of
                          Some r \<Rightarrow> (arrayAt st2 (data r), vmin r, vmax r)
                        | None \<Rightarrow> ([], 0, 0));
                     st3 = runStage procMethod param1 param2 vol reference newData st2;
                     (newMin, newMax) = rangeLoop (arrayAt st3 newData) 0 (PosInf, NegInf)
                 in (st3, Some \<lparr> header = header vol,
                                 data = newData,
                                 dimensions = dimensions vol,
                                 vmin = newMin,
                                 vmax = newMax \<rparr>))))"


definition histEqTotal :: "real list \<Rightarrow> real \<Rightarrow> real \<Rightarrow> nat" where
  "histEqTotal dat mn mx = sum_list (fst (getHistogram (nums dat) (num mn) (num mx)))"








text \<open>
  A volume of two binary64 samples with the range 0 to \<open>1/10\<close>, the binary64 number
  nearest to one tenth: \<open>3602879701896397 / 2^55\<close>.
\<close>

definition exTenth :: real where "exTenth = 3602879701896397 / 2 ^ 55"

definition exStore6 :: store where "exStore6 = [[0, exTenth]]"

definition exVol6 :: "(addr, real) VolumeData" where
  "exVol6 = \<lparr> header = Map.empty, data = 0, dimensions = (2, 1, 1), vmin = 0, vmax = exTenth \<rparr>"

text \<open>
  A function on the store keeps the first \<open>n\<close> arrays when it leaves each of them as
  it is and drops no array, whatever it does to the arrays behind them and however many
  it allocates.
\<close>

definition keeps :: "nat \<Rightarrow> (store \<Rightarrow> store) \<Rightarrow> bool" where
  "keeps n f = (\<forall>st. n \<le> length st \<longrightarrow> length st \<le> length (f st) \<and> (\<forall>a < n. f st ! a = st ! a))"

text \<open>The same for one store \<open>st\<close> against an earlier store \<open>st0\<close>.\<close>

definition kept :: "nat \<Rightarrow> store \<Rightarrow> store \<Rightarrow> bool" where
  "kept n st0 st = (n \<le> length st0 \<and> length st0 \<le> length st \<and> (\<forall>a < n. st ! a = st0 ! a))"

definition exStore5 :: store where "exStore5 = [[5, 7], [0, 0]]"

definition exVol5 :: "(addr, real) VolumeData" where
  "exVol5 = \<lparr> header = Map.empty, data = 0, dimensions = (2, 1, 1), vmin = 5, vmax = 7 \<rparr>"

definition exSeg5 :: "(addr, real) VolumeData" where
  "exSeg5 = \<lparr> header = Map.empty, data = 1, dimensions = (2, 1, 1), vmin = 0, vmax = 1 \<rparr>"

section \<open>Properties of rounding\<close>

subsection \<open>Rounding to the nearest integer\<close>

lemma rne_int [simp]: "rne (real_of_int n) = n"
  by (simp add: rne_def)

lemma rne_mono: "x \<le> y \<Longrightarrow> rne x \<le> rne y"
proof -
  assume xy: "x \<le> y"
  have fl: "\<lfloor>x\<rfloor> \<le> \<lfloor>y\<rfloor>" using xy by (rule floor_mono)
  have ux: "rne x \<le> \<lfloor>x\<rfloor> + 1" by (simp add: rne_def Let_def)
  have ly: "\<lfloor>y\<rfloor> \<le> rne y" by (simp add: rne_def Let_def)
  show ?thesis
  proof (cases "\<lfloor>x\<rfloor> = \<lfloor>y\<rfloor>")
    case True
    then show ?thesis using xy by (auto simp: rne_def Let_def)
  next
    case False
    with fl have "\<lfloor>x\<rfloor> + 1 \<le> \<lfloor>y\<rfloor>" by simp
    with ux ly show ?thesis by linarith
  qed
qed

lemma rne_ge: "real_of_int n \<le> x \<Longrightarrow> n \<le> rne x"
  using rne_mono [of "real_of_int n" x] by simp

lemma rne_le: "x \<le> real_of_int n \<Longrightarrow> rne x \<le> n"
  using rne_mono [of x "real_of_int n"] by simp

subsection \<open>The binary exponent\<close>

lemma normUp_lower: "1 \<le> x \<Longrightarrow> 2 powi (normUp n x) \<le> x"
proof (induction n arbitrary: x)
  case 0
  then show ?case by simp
next
  case (Suc n)
  show ?case
  proof (cases "x < 2")
    case True
    then show ?thesis using Suc.prems by simp
  next
    case False
    then have "1 \<le> x / 2" by simp
    from Suc.IH [OF this] have "2 powi (normUp n (x / 2)) \<le> x / 2" .
    then have "2 powi (normUp n (x / 2)) * 2 \<le> x" by simp
    moreover have "(2::real) powi (normUp n (x / 2) + 1) = 2 powi (normUp n (x / 2)) * 2"
      by (simp add: power_int_add)
    ultimately show ?thesis using False by simp
  qed
qed

lemma normUp_upper: "1 \<le> x \<Longrightarrow> x < 2 ^ (Suc n) \<Longrightarrow> x < 2 powi (normUp n x + 1)"
proof (induction n arbitrary: x)
  case 0
  then show ?case by simp
next
  case (Suc n)
  show ?case
  proof (cases "x < 2")
    case True
    then show ?thesis by simp
  next
    case False
    then have a: "1 \<le> x / 2" by simp
    have b: "x / 2 < 2 ^ (Suc n)" using Suc.prems(2) by simp
    from Suc.IH [OF a b] have "x / 2 < 2 powi (normUp n (x / 2) + 1)" .
    then have "x < 2 powi (normUp n (x / 2) + 1) * 2" by simp
    moreover have "(2::real) powi (normUp n (x / 2) + 1 + 1) = 2 powi (normUp n (x / 2) + 1) * 2"
      by (subst power_int_add) simp_all
    ultimately show ?thesis using False by simp
  qed
qed

lemma normUp_nonneg: "0 \<le> normUp n x"
  by (induction n arbitrary: x) simp_all

lemma normDown_upper: "0 < x \<Longrightarrow> x < 1 \<Longrightarrow> x < 2 powi (normDown n x + 1)"
proof (induction n arbitrary: x)
  case 0
  then show ?case by simp
next
  case (Suc n)
  have b: "\<not> 1 \<le> x" using Suc.prems by simp
  show ?case
  proof (cases "1 \<le> 2 * x")
    case True
    then have "normDown (Suc n) x = normDown n (2 * x) - 1" using b by simp
    moreover have "normDown n (2 * x) = 0" using True by (cases n) simp_all
    ultimately show ?thesis using Suc.prems by simp
  next
    case False
    then have a: "2 * x < 1" by simp
    from Suc.IH [of "2 * x"] Suc.prems a have "2 * x < 2 powi (normDown n (2 * x) + 1)" by simp
    moreover have "(2::real) powi (normDown n (2 * x) + 1) = 2 powi (normDown n (2 * x)) * 2"
      by (simp add: power_int_add)
    ultimately show ?thesis using b by simp
  qed
qed

lemma normDown_range: "- int n \<le> normDown n x \<and> normDown n x \<le> 0"
proof (induction n arbitrary: x)
  case 0
  show ?case by simp
next
  case (Suc n)
  from Suc [of "2 * x"] show ?case by simp
qed

lemma normDown_lower: "0 < x \<Longrightarrow> - int n < normDown n x \<Longrightarrow> 2 powi (normDown n x) \<le> x"
proof (induction n arbitrary: x)
  case 0
  then show ?case by simp
next
  case (Suc n)
  show ?case
  proof (cases "1 \<le> x")
    case True
    then show ?thesis by simp
  next
    case False
    then have e: "normDown (Suc n) x = normDown n (2 * x) - 1" by simp
    with Suc.prems(2) have "- int n < normDown n (2 * x)" by simp
    from Suc.IH [of "2 * x", OF _ this] Suc.prems(1) have "2 powi (normDown n (2 * x)) \<le> 2 * x" by simp
    moreover have "(2::real) powi (normDown n (2 * x)) = 2 powi (normDown n (2 * x) - 1) * 2"
      by (simp add: power_int_diff)
    ultimately show ?thesis using e by simp
  qed
qed

lemma expo_upper: "\<bar>x\<bar> < 2 ^ 1101 \<Longrightarrow> \<bar>x\<bar> < 2 powi (expo x + 1)"
proof (cases "1 \<le> \<bar>x\<bar>")
  case True
  assume "\<bar>x\<bar> < 2 ^ 1101"
  then have "\<bar>x\<bar> < 2 ^ (Suc 1100)" by simp
  from normUp_upper [OF True this] True show ?thesis by (simp add: expo_def)
next
  case False
  show ?thesis
  proof (cases "x = 0")
    case True
    then show ?thesis by simp
  next
    case nz: False
    then have "0 < \<bar>x\<bar>" by simp
    from normDown_upper [OF this] False show ?thesis by (simp add: expo_def)
  qed
qed

lemma expo_lower: "- 1100 < expo x \<Longrightarrow> 2 powi (expo x) \<le> \<bar>x\<bar>"
proof (cases "1 \<le> \<bar>x\<bar>")
  case True
  from normUp_lower [OF True] True show ?thesis by (simp add: expo_def)
next
  case False
  assume a: "- 1100 < expo x"
  show ?thesis
  proof (cases "x = 0")
    case True
    then have "expo x = normDown 1100 0" by (simp add: expo_def)
    moreover have "normDown n 0 = - int n" for n by (induction n) simp_all
    ultimately show ?thesis using a by simp
  next
    case nz: False
    then have p: "0 < \<bar>x\<bar>" by simp
    from a False have "- int 1100 < normDown 1100 \<bar>x\<bar>" by (simp add: expo_def)
    from normDown_lower [OF p this] False show ?thesis by (simp add: expo_def)
  qed
qed

lemma expo_ge: "- 1100 \<le> expo x"
  using normDown_range [of 1100 "\<bar>x\<bar>"] normUp_nonneg [of 1100 "\<bar>x\<bar>"]
  by (simp add: expo_def)


subsection \<open>Rounding to a binary format\<close>

lemma bexp_upper:
  assumes "\<bar>x\<bar> < 2 ^ 1101"
  shows "\<bar>x\<bar> < 2 powi (max (expo x) emin + 1)"
proof -
  have "\<bar>x\<bar> < 2 powi (expo x + 1)" using expo_upper [OF assms] .
  also have "\<dots> \<le> 2 powi (max (expo x) emin + 1)" by (intro power_int_increasing) simp_all
  finally show ?thesis .
qed

lemma bexp_lower:
  assumes "- 1100 \<le> emin" and "emin < max (expo x) emin"
  shows "2 powi (max (expo x) emin) \<le> \<bar>x\<bar>"
proof -
  from assms have m: "max (expo x) emin = expo x" and "- 1100 < expo x"
    by (simp_all add: max_def split: if_splits)
  from expo_lower [OF this(2)] show ?thesis by (simp only: m)
qed

lemma bexp_mono:
  assumes "- 1100 \<le> emin" and "\<bar>x\<bar> \<le> \<bar>y\<bar>" and "\<bar>y\<bar> < 2 ^ 1101"
  shows "max (expo x) emin \<le> max (expo y) emin"
proof (rule ccontr)
  assume "\<not> max (expo x) emin \<le> max (expo y) emin"
  then have gt: "max (expo y) emin < max (expo x) emin" by (simp only: not_le)
  then have "emin < max (expo x) emin" by linarith
  from bexp_lower [OF assms(1) this] have "2 powi (max (expo x) emin) \<le> \<bar>x\<bar>" .
  also note assms(2)
  also have "\<bar>y\<bar> < 2 powi (max (expo y) emin + 1)" using bexp_upper [OF assms(3)] .
  also have "\<dots> \<le> 2 powi (max (expo x) emin)"
  proof -
    have "max (expo y) emin + 1 \<le> max (expo x) emin" using gt by linarith
    then show ?thesis by (rule power_int_increasing) simp
  qed
  finally show False by simp
qed

lemma scale_pos: "0 < (2::real) powi q"
  by (simp add: zero_less_power_int)

lemma scale_split: "(2::real) powi (e + 1) = 2 ^ p * 2 powi (e - int p + 1)"
proof -
  have "(2::real) powi (e + 1) = 2 powi (int p + (e - int p + 1))" by simp
  also have "\<dots> = 2 powi (int p) * 2 powi (e - int p + 1)" by (rule power_int_add) simp
  finally show ?thesis by (simp add: power_int_of_nat)
qed

lemma scale_split': "0 < p \<Longrightarrow> (2::real) powi e = 2 ^ (p - 1) * 2 powi (e - int p + 1)"
proof -
  assume p: "0 < p"
  have "(2::real) powi e = 2 powi (int (p - 1) + (e - int p + 1))" using p by (simp add: of_nat_diff)
  also have "\<dots> = 2 powi (int (p - 1)) * 2 powi (e - int p + 1)" by (rule power_int_add) simp
  finally show ?thesis by (simp add: power_int_of_nat)
qed

lemma rne_zero [simp]: "rne 0 = 0"
  by (simp add: rne_def)

lemma roundTo_zero [simp]: "roundTo p emin 0 = 0"
  by (simp add: roundTo_def)

lemma roundTo_nonneg: "0 \<le> x \<Longrightarrow> 0 \<le> roundTo p emin x"
proof -
  assume "0 \<le> x"
  then have "real_of_int 0 \<le> x / 2 powi (max (expo x) emin - int p + 1)"
    using scale_pos by simp
  from rne_ge [OF this] show ?thesis
    using scale_pos by (simp add: roundTo_def Let_def)
qed

lemma roundTo_nonpos: "x \<le> 0 \<Longrightarrow> roundTo p emin x \<le> 0"
proof -
  assume "x \<le> 0"
  then have "x / 2 powi (max (expo x) emin - int p + 1) \<le> real_of_int 0"
    using scale_pos by (simp add: divide_le_0_iff)
  from rne_le [OF this] show ?thesis
    using scale_pos [of "max (expo x) emin - int p + 1"]
    by (simp add: roundTo_def Let_def mult_le_0_iff)
qed

lemma roundTo_upper:
  assumes "\<bar>x\<bar> < 2 ^ 1101"
  shows "roundTo p emin x \<le> 2 powi (max (expo x) emin + 1)"
    and "- (2 powi (max (expo x) emin + 1)) \<le> roundTo p emin x"
proof -
  define q where "q = max (expo x) emin - int p + 1"
  define u :: real where "u = 2 powi q"
  have u: "0 < u" unfolding u_def by (rule scale_pos)
  have top: "2 powi (max (expo x) emin + 1) = 2 ^ p * u"
    unfolding u_def q_def by (rule scale_split)
  have ax: "\<bar>x\<bar> < 2 ^ p * u" using bexp_upper [OF assms, of emin] top by simp
  have "x / u \<le> real_of_int (2 ^ p)" using ax u by (simp add: pos_divide_le_eq)
  from rne_le [OF this] have "real_of_int (rne (x / u)) \<le> 2 ^ p"
    by (metis of_int_le_iff of_int_numeral of_int_power)
  then have "real_of_int (rne (x / u)) * u \<le> 2 ^ p * u" using u by simp
  then show "roundTo p emin x \<le> 2 powi (max (expo x) emin + 1)"
    by (simp add: roundTo_def Let_def top q_def [symmetric] u_def [symmetric])
  have "real_of_int (- (2 ^ p)) \<le> x / u" using ax u by (simp add: pos_le_divide_eq)
  from rne_ge [OF this] have "- (2 ^ p) \<le> real_of_int (rne (x / u))"
    by (metis of_int_le_iff of_int_minus of_int_numeral of_int_power)
  then have "- (2 ^ p) * u \<le> real_of_int (rne (x / u)) * u"
    using u by (intro mult_right_mono) simp_all
  then show "- (2 powi (max (expo x) emin + 1)) \<le> roundTo p emin x"
    by (simp add: roundTo_def Let_def top q_def [symmetric] u_def [symmetric])
qed

lemma roundTo_lower:
  assumes "- 1100 \<le> emin" and "0 < p" and "emin < max (expo x) emin"
  shows "0 \<le> x \<Longrightarrow> 2 powi (max (expo x) emin) \<le> roundTo p emin x"
    and "x \<le> 0 \<Longrightarrow> roundTo p emin x \<le> - (2 powi (max (expo x) emin))"
proof -
  define q where "q = max (expo x) emin - int p + 1"
  define u :: real where "u = 2 powi q"
  have u: "0 < u" unfolding u_def by (rule scale_pos)
  have bot: "2 powi (max (expo x) emin) = 2 ^ (p - 1) * u"
    unfolding u_def q_def using assms(2) by (rule scale_split')
  have ax: "2 ^ (p - 1) * u \<le> \<bar>x\<bar>" using bexp_lower [OF assms(1,3)] bot by simp
  {
    assume "0 \<le> x"
    then have "real_of_int (2 ^ (p - 1)) \<le> x / u" using ax u by (simp add: pos_le_divide_eq)
    from rne_ge [OF this] have "2 ^ (p - 1) \<le> real_of_int (rne (x / u))"
      by (metis of_int_le_iff of_int_numeral of_int_power)
    then have "2 ^ (p - 1) * u \<le> real_of_int (rne (x / u)) * u" using u by simp
    then show "2 powi (max (expo x) emin) \<le> roundTo p emin x"
      by (simp add: roundTo_def Let_def bot q_def [symmetric] u_def [symmetric])
  }
  {
    assume "x \<le> 0"
    then have "x / u \<le> real_of_int (- (2 ^ (p - 1)))" using ax u by (simp add: pos_divide_le_eq)
    from rne_le [OF this] have "real_of_int (rne (x / u)) \<le> - (2 ^ (p - 1))"
      by (metis of_int_le_iff of_int_minus of_int_numeral of_int_power)
    then have "real_of_int (rne (x / u)) * u \<le> - (2 ^ (p - 1)) * u"
      using u by (intro mult_right_mono) simp_all
    then show "roundTo p emin x \<le> - (2 powi (max (expo x) emin))"
      by (simp add: roundTo_def Let_def bot q_def [symmetric] u_def [symmetric])
  }
qed

lemma roundTo_same_scale:
  assumes "max (expo x) emin = max (expo y) emin" and "x \<le> y"
  shows "roundTo p emin x \<le> roundTo p emin y"
proof -
  define u :: real where "u = 2 powi (max (expo y) emin - int p + 1)"
  have u: "0 < u" unfolding u_def by (rule scale_pos)
  have "x / u \<le> y / u" using assms(2) u by (simp add: divide_right_mono)
  from rne_mono [OF this] have "real_of_int (rne (x / u)) * u \<le> real_of_int (rne (y / u)) * u"
    using u by simp
  then show ?thesis by (simp add: roundTo_def Let_def assms(1) u_def)
qed

lemma roundTo_mono:
  assumes emin: "- 1100 \<le> emin" and p: "0 < p" and xy: "x \<le> y"
    and bx: "\<bar>x\<bar> < 2 ^ 1101" and "by": "\<bar>y\<bar> < 2 ^ 1101"
  shows "roundTo p emin x \<le> roundTo p emin y"
proof -
  consider "x \<le> 0 \<and> 0 \<le> y" | "0 \<le> x" | "y \<le> 0" by linarith
  then show ?thesis
  proof cases
    case 1
    then show ?thesis
      using roundTo_nonpos [of x p emin] roundTo_nonneg [of y p emin] by linarith
  next
    case 2
    then have a: "\<bar>x\<bar> \<le> \<bar>y\<bar>" and y0: "0 \<le> y" using xy by simp_all
    from bexp_mono [OF emin a "by"] have le: "max (expo x) emin \<le> max (expo y) emin" .
    show ?thesis
    proof (cases "max (expo x) emin = max (expo y) emin")
      case True
      then show ?thesis using xy by (rule roundTo_same_scale)
    next
      case False
      from le False have lt: "max (expo x) emin < max (expo y) emin" by (rule le_neq_trans)
      then have gt: "emin < max (expo y) emin" by linarith
      have "roundTo p emin x \<le> 2 powi (max (expo x) emin + 1)" using roundTo_upper(1) [OF bx] .
      also have "\<dots> \<le> 2 powi (max (expo y) emin)"
      proof -
        have "max (expo x) emin + 1 \<le> max (expo y) emin" using lt by linarith
        then show ?thesis by (rule power_int_increasing) simp
      qed
      also have "\<dots> \<le> roundTo p emin y" using roundTo_lower(1) [OF emin p gt y0] .
      finally show ?thesis .
    qed
  next
    case 3
    then have a: "\<bar>y\<bar> \<le> \<bar>x\<bar>" and x0: "x \<le> 0" using xy by simp_all
    from bexp_mono [OF emin a bx] have le: "max (expo y) emin \<le> max (expo x) emin" .
    show ?thesis
    proof (cases "max (expo x) emin = max (expo y) emin")
      case True
      then show ?thesis using xy by (rule roundTo_same_scale)
    next
      case False
      from le False [symmetric] have lt: "max (expo y) emin < max (expo x) emin" by (rule le_neq_trans)
      then have gt: "emin < max (expo x) emin" by linarith
      have "roundTo p emin x \<le> - (2 powi (max (expo x) emin))"
        using roundTo_lower(2) [OF emin p gt x0] .
      also have "\<dots> \<le> - (2 powi (max (expo y) emin + 1))"
      proof -
        have "max (expo y) emin + 1 \<le> max (expo x) emin" using lt by linarith
        then have "(2::real) powi (max (expo y) emin + 1) \<le> 2 powi (max (expo x) emin)"
          by (rule power_int_increasing) simp
        then show ?thesis by linarith
      qed
      also have "\<dots> \<le> roundTo p emin y" using roundTo_upper(2) [OF "by"] .
      finally show ?thesis .
    qed
  qed
qed

text \<open>A number on a grid that is fine enough, with at most \<open>p\<close> digits, is kept.\<close>

lemma roundTo_grid:
  assumes "y = real_of_int m * 2 powi (max (expo y) emin - int p + 1)"
  shows "roundTo p emin y = y"
proof -
  define u :: real where "u = 2 powi (max (expo y) emin - int p + 1)"
  have u: "u \<noteq> 0" unfolding u_def using scale_pos [of "max (expo y) emin - int p + 1"] by simp
  have "y / u = real_of_int m" using assms u by (simp add: u_def [symmetric])
  then have "roundTo p emin y = real_of_int m * u"
    by (simp add: roundTo_def Let_def u_def [symmetric])
  then show ?thesis using assms by (simp add: u_def)
qed

lemma roundTo_fix:
  assumes emin: "- 1100 \<le> emin" and p: "0 < p"
    and y: "y = real_of_int n * 2 powi q0" and n: "\<bar>n\<bar> \<le> 2 ^ p"
    and q0: "emin - int p + 1 \<le> q0"
  shows "roundTo p emin y = y"
proof -
  define E where "E = max (expo y) emin"
  define q where "q = E - int p + 1"
  show ?thesis
  proof (cases "q \<le> q0")
    case True
    define k where "k = nat (q0 - q)"
    have "(2::real) powi q0 = 2 powi (int k + q)" using True by (simp add: k_def)
    also have "\<dots> = 2 powi (int k) * 2 powi q" by (rule power_int_add) simp
    finally have "y = real_of_int (n * 2 ^ k) * 2 powi q"
      using y by (simp add: power_int_of_nat)
    then show ?thesis unfolding q_def E_def by (rule roundTo_grid)
  next
    case False
    then have lt: "q0 < q" by simp
    with q0 have gt: "emin < max (expo y) emin" unfolding q_def E_def by linarith
    have low: "2 powi E \<le> \<bar>y\<bar>" unfolding E_def using bexp_lower [OF emin gt] .
    have "\<bar>y\<bar> = real_of_int \<bar>n\<bar> * 2 powi q0" using y scale_pos [of q0] by (simp add: abs_mult)
    also have "\<dots> \<le> real_of_int (2 ^ p) * 2 powi q0"
    proof -
      have "real_of_int \<bar>n\<bar> \<le> real_of_int (2 ^ p)" using n by (simp only: of_int_le_iff)
      then show ?thesis using scale_pos [of q0] by (intro mult_right_mono) simp_all
    qed
    also have "\<dots> = 2 powi (int p + q0)"
      by (subst power_int_add) (simp_all add: power_int_of_nat)
    finally have up: "\<bar>y\<bar> \<le> 2 powi (int p + q0)" .
    have "E \<le> int p + q0"
    proof (rule ccontr)
      assume "\<not> E \<le> int p + q0"
      then have "int p + q0 < E" by simp
      then have "(2::real) powi (int p + q0) < 2 powi E" by (rule power_int_strict_increasing) simp
      with low up show False by linarith
    qed
    with lt have E: "E = int p + q0" unfolding q_def by linarith
    with low up have ay: "\<bar>y\<bar> = 2 powi E" by simp
    have sp: "(2::real) powi E = 2 ^ (p - 1) * 2 powi q"
      unfolding q_def using p by (rule scale_split')
    have "y = real_of_int (2 ^ (p - 1)) * 2 powi q \<or> y = real_of_int (- (2 ^ (p - 1))) * 2 powi q"
      using ay sp by (cases "0 \<le> y") simp_all
    then show ?thesis
      unfolding q_def E_def using roundTo_grid by blast
  qed
qed

lemma roundTo_idem:
  assumes emin: "- 1100 \<le> emin" and p: "0 < p" and bx: "\<bar>x\<bar> < 2 ^ 1101"
  shows "roundTo p emin (roundTo p emin x) = roundTo p emin x"
proof -
  define q where "q = max (expo x) emin - int p + 1"
  define n where "n = rne (x / 2 powi q)"
  have y: "roundTo p emin x = real_of_int n * 2 powi q"
    by (simp add: roundTo_def Let_def n_def q_def)
  have top: "2 powi (max (expo x) emin + 1) = 2 ^ p * (2::real) powi q"
    unfolding q_def by (rule scale_split)
  from roundTo_upper [OF bx, where p = p and emin = emin]
  have b: "real_of_int n * 2 powi q \<le> real_of_int (2 ^ p) * 2 powi q"
    "real_of_int (- (2 ^ p)) * 2 powi q \<le> real_of_int n * 2 powi q"
    by (simp_all add: y top)
  have "real_of_int n \<le> real_of_int (2 ^ p)" "real_of_int (- (2 ^ p)) \<le> real_of_int n"
    using b scale_pos [of q] by (simp_all only: mult_le_cancel_right_pos)
  then have "n \<le> 2 ^ p" "- (2 ^ p) \<le> n" by (simp_all only: of_int_le_iff)
  then have n: "\<bar>n\<bar> \<le> 2 ^ p" by linarith
  have q0: "emin - int p + 1 \<le> q" unfolding q_def by simp
  show ?thesis
    using roundTo_fix [OF emin p y n q0] .
qed

lemma roundTo_int:
  assumes emin: "- 1100 \<le> emin" and p: "0 < p" and n: "\<bar>n\<bar> \<le> 2 ^ p" and e: "emin < int p"
  shows "roundTo p emin (real_of_int n) = real_of_int n"
proof -
  have "real_of_int n = real_of_int n * 2 powi 0" by simp
  moreover have "emin - int p + 1 \<le> 0" using e by simp
  ultimately show ?thesis using roundTo_fix [OF emin p _ n] by blast
qed


subsection \<open>Binary64 and binary32\<close>

lemma rne_below_half: "z < real_of_int n + 1/2 \<Longrightarrow> rne z \<le> n"
proof -
  assume z: "z < real_of_int n + 1/2"
  then have f: "\<lfloor>z\<rfloor> \<le> n" by linarith
  show ?thesis
  proof (cases "\<lfloor>z\<rfloor> = n")
    case True
    then have "z - real_of_int \<lfloor>z\<rfloor> < 1/2" using z by simp
    then show ?thesis using True by (simp add: rne_def Let_def)
  next
    case False
    with f have "\<lfloor>z\<rfloor> + 1 \<le> n" by simp
    moreover have "rne z \<le> \<lfloor>z\<rfloor> + 1" by (simp add: rne_def Let_def)
    ultimately show ?thesis by linarith
  qed
qed

lemma rne_above_half: "real_of_int n - 1/2 < z \<Longrightarrow> n \<le> rne z"
proof -
  assume z: "real_of_int n - 1/2 < z"
  have l: "\<lfloor>z\<rfloor> \<le> rne z" by (simp add: rne_def Let_def)
  show ?thesis
  proof (cases "n \<le> \<lfloor>z\<rfloor>")
    case True
    with l show ?thesis by linarith
  next
    case False
    then have "\<lfloor>z\<rfloor> + 1 \<le> n" by simp
    moreover have "real_of_int n - 1 < z" using z by linarith
    then have "n - 1 \<le> \<lfloor>z\<rfloor>" by linarith
    ultimately have e: "\<lfloor>z\<rfloor> = n - 1" by linarith
    then have "1/2 < z - real_of_int \<lfloor>z\<rfloor>" using z by simp
    then show ?thesis using e by (simp add: rne_def Let_def)
  qed
qed

text \<open>
  Below the overflow threshold \<open>2^(emax+1) - 2^(emax-p)\<close> the rounded value is at most
  the greatest finite number \<open>2^(emax+1) - 2^(emax-p+1)\<close>.
\<close>

lemma roundTo_finite:
  assumes emin: "- 1100 \<le> emin" and p: "0 < p" and em: "emin \<le> emax" and eM: "emax \<le> 1100"
    and x: "\<bar>x\<bar> < 2 powi (emax + 1) - 2 powi (emax - int p)"
  shows "\<bar>roundTo p emin x\<bar> \<le> 2 powi (emax + 1) - 2 powi (emax - int p + 1)"
proof -
  define E where "E = max (expo x) emin"
  have pos: "0 < (2::real) powi (emax - int p)" by (rule scale_pos)
  have "(2::real) powi (emax + 1) \<le> 2 powi 1101" using eM by (intro power_int_increasing) simp_all
  moreover have "(2::real) powi 1101 = 2 ^ 1101" by (rule power_int_numeral)
  ultimately have b: "\<bar>x\<bar> < 2 ^ 1101" using x pos by linarith
  have xlt: "\<bar>x\<bar> < 2 powi (emax + 1)" using x pos by linarith
  have Ele: "E \<le> emax"
  proof (rule ccontr)
    assume "\<not> E \<le> emax"
    then have g: "emax + 1 \<le> E" by simp
    with em have "emin < max (expo x) emin" unfolding E_def by linarith
    from bexp_lower [OF emin this] have "2 powi E \<le> \<bar>x\<bar>" unfolding E_def .
    moreover have "(2::real) powi (emax + 1) \<le> 2 powi E" using g by (rule power_int_increasing) simp
    ultimately show False using xlt by linarith
  qed
  have half: "(2::real) powi (emax - int p + 1) = 2 * 2 powi (emax - int p)"
    by (subst power_int_add) simp_all
  have M: "(2::real) powi (emax + 1) - 2 powi (emax - int p + 1) = (2 ^ p - 1) * 2 powi (emax - int p + 1)"
    using scale_split [of emax p] by (simp add: algebra_simps)
  show ?thesis
  proof (cases "E = emax")
    case True
    define u :: real where "u = 2 powi (emax - int p + 1)"
    have u: "0 < u" unfolding u_def by (rule scale_pos)
    have T: "(2::real) powi (emax + 1) - 2 powi (emax - int p) = (2 ^ p - 1/2) * u"
      using scale_split [of emax p] half by (simp add: algebra_simps u_def)
    have r: "roundTo p emin x = real_of_int (rne (x / u)) * u"
      using True by (simp add: roundTo_def Let_def E_def u_def)
    have "x < (2 ^ p - 1/2) * u" "(- (2 ^ p - 1/2)) * u < x" using x T by linarith+
    then have "x / u < 2 ^ p - 1/2" "- (2 ^ p - 1/2) < x / u"
      using u by (simp_all only: pos_divide_less_eq pos_less_divide_eq)
    then have h: "x / u < real_of_int (2 ^ p - 1) + 1/2" "real_of_int (- (2 ^ p - 1)) - 1/2 < x / u"
      by simp_all
    have "rne (x / u) \<le> 2 ^ p - 1" "- (2 ^ p - 1) \<le> rne (x / u)"
      using rne_below_half [OF h(1)] rne_above_half [OF h(2)] by blast+
    then have "real_of_int (rne (x / u)) \<le> real_of_int (2 ^ p - 1)"
      "real_of_int (- (2 ^ p - 1)) \<le> real_of_int (rne (x / u))"
      by (simp_all only: of_int_le_iff)
    then have "\<bar>real_of_int (rne (x / u))\<bar> \<le> 2 ^ p - 1" by simp
    then have le: "\<bar>real_of_int (rne (x / u))\<bar> * u \<le> (2 ^ p - 1) * u"
      using u by (intro mult_right_mono) simp_all
    have "\<bar>roundTo p emin x\<bar> = \<bar>real_of_int (rne (x / u))\<bar> * u"
      using u by (simp add: r abs_mult)
    also note le
    also have "(2 ^ p - 1) * u = 2 powi (emax + 1) - 2 powi (emax - int p + 1)"
      using M by (simp only: u_def)
    finally show ?thesis .
  next
    case False
    with Ele have "E + 1 \<le> emax" by simp
    then have le: "(2::real) powi (E + 1) \<le> 2 powi emax" by (rule power_int_increasing) simp
    have "\<bar>roundTo p emin x\<bar> \<le> 2 powi (E + 1)"
      using roundTo_upper [OF b, where p = p and emin = emin] unfolding E_def by linarith
    also note le
    also have "(2::real) powi emax \<le> 2 powi (emax + 1) - 2 powi (emax - int p + 1)"
    proof -
      have "(2::real) powi (emax - int p + 1) \<le> 2 powi emax"
        using p by (intro power_int_increasing) simp_all
      moreover have "(2::real) powi (emax + 1) = 2 * 2 powi emax"
        by (subst power_int_add) simp_all
      ultimately show ?thesis by linarith
    qed
    finally show ?thesis .
  qed
qed

lemma big64: "(2::real) ^ 1024 < 2 ^ 1101" and big32: "(2::real) ^ 128 < 2 ^ 1101"
  by simp_all

lemma round64_zero [simp]: "round64 0 = 0" and round32_zero [simp]: "round32 0 = 0"
  by (simp_all add: round64_def round32_def)

lemma round64_mono:
  assumes "x \<le> y" and "\<bar>x\<bar> < 2 ^ 1024" and "\<bar>y\<bar> < 2 ^ 1024"
  shows "round64 x \<le> round64 y"
  unfolding round64_def using assms big64 by (intro roundTo_mono) simp_all

lemma round32_mono:
  assumes "x \<le> y" and "\<bar>x\<bar> < 2 ^ 1024" and "\<bar>y\<bar> < 2 ^ 1024"
  shows "round32 x \<le> round32 y"
  unfolding round32_def using assms big64 by (intro roundTo_mono) simp_all

lemma round64_idem: "\<bar>x\<bar> < 2 ^ 1024 \<Longrightarrow> round64 (round64 x) = round64 x"
  unfolding round64_def using big64 by (intro roundTo_idem) simp_all

lemma round32_idem: "\<bar>x\<bar> < 2 ^ 1024 \<Longrightarrow> round32 (round32 x) = round32 x"
  unfolding round32_def using big64 by (intro roundTo_idem) simp_all

lemma round64_int: "\<bar>n\<bar> \<le> 2 ^ 53 \<Longrightarrow> round64 (real_of_int n) = real_of_int n"
  unfolding round64_def by (intro roundTo_int) simp_all

lemma round32_int: "\<bar>n\<bar> \<le> 2 ^ 24 \<Longrightarrow> round32 (real_of_int n) = real_of_int n"
  unfolding round32_def by (intro roundTo_int) simp_all


lemma round32_nonneg: "0 \<le> x \<Longrightarrow> 0 \<le> round32 x"
  unfolding round32_def by (rule roundTo_nonneg)

lemma round64_finite:
  assumes "\<bar>x\<bar> < 2 ^ 1024 - 2 ^ 970"
  shows "\<bar>round64 x\<bar> \<le> 2 ^ 1024 - 2 ^ 971"
proof -
  have "\<bar>roundTo 53 (- 1022) x\<bar> \<le> 2 powi (1023 + 1) - 2 powi (1023 - int 53 + 1)"
    using assms by (intro roundTo_finite) simp_all
  then show ?thesis by (simp add: round64_def)
qed

lemma round32_finite:
  assumes "\<bar>x\<bar> < 2 ^ 128 - 2 ^ 103"
  shows "\<bar>round32 x\<bar> \<le> 2 ^ 128 - 2 ^ 104"
proof -
  have "\<bar>roundTo 24 (- 126) x\<bar> \<le> 2 powi (127 + 1) - 2 powi (127 - int 24 + 1)"
    using assms by (intro roundTo_finite) simp_all
  then show ?thesis by (simp add: round32_def)
qed

lemma double_Fin: "\<bar>x\<bar> < 2 ^ 1024 - 2 ^ 970 \<Longrightarrow> double x = Fin (round64 x)"
  by (auto simp: double_def)

lemma fround_Fin: "\<bar>x\<bar> < 2 ^ 128 - 2 ^ 103 \<Longrightarrow> fround x = Fin (round32 x)"
  by (auto simp: fround_def)

lemma double_int: "\<bar>n\<bar> \<le> 2 ^ 53 \<Longrightarrow> double (real_of_int n) = Fin (real_of_int n)"
proof -
  assume n: "\<bar>n\<bar> \<le> 2 ^ 53"
  then have "\<bar>real_of_int n\<bar> \<le> real_of_int (2 ^ 53)" by (simp only: of_int_abs [symmetric] of_int_le_iff)
  then have "\<bar>real_of_int n\<bar> < 2 ^ 1024 - 2 ^ 970" by simp
  then show ?thesis using n by (simp add: double_Fin round64_int)
qed

lemma fround_int: "\<bar>n\<bar> \<le> 2 ^ 24 \<Longrightarrow> fround (real_of_int n) = Fin (real_of_int n)"
proof -
  assume n: "\<bar>n\<bar> \<le> 2 ^ 24"
  then have "\<bar>real_of_int n\<bar> \<le> real_of_int (2 ^ 24)" by (simp only: of_int_abs [symmetric] of_int_le_iff)
  then have "\<bar>real_of_int n\<bar> < 2 ^ 128 - 2 ^ 103" by simp
  then show ?thesis using n by (simp add: fround_Fin round32_int)
qed

lemma double_mono: "x \<le> y \<Longrightarrow> leq (double x) (double y)"
proof -
  assume xy: "x \<le> y"
  have big: "(2::real) ^ 1024 - 2 ^ 970 < 2 ^ 1024" by simp
  show ?thesis
  proof (cases "\<bar>x\<bar> < 2 ^ 1024 - 2 ^ 970 \<and> \<bar>y\<bar> < 2 ^ 1024 - 2 ^ 970")
    case True
    then have "round64 x \<le> round64 y" using xy big by (intro round64_mono) linarith+
    then show ?thesis using True by (simp add: double_Fin leq_def)
  next
    case False
    then show ?thesis using xy by (auto simp: double_def leq_def)
  qed
qed

lemma fround_mono: "x \<le> y \<Longrightarrow> leq (fround x) (fround y)"
proof -
  assume xy: "x \<le> y"
  have big: "(2::real) ^ 128 - 2 ^ 103 < 2 ^ 1024" by simp
  show ?thesis
  proof (cases "\<bar>x\<bar> < 2 ^ 128 - 2 ^ 103 \<and> \<bar>y\<bar> < 2 ^ 128 - 2 ^ 103")
    case True
    then have "round32 x \<le> round32 y" using xy big by (intro round32_mono) linarith+
    then show ?thesis using True by (simp add: fround_Fin leq_def)
  next
    case False
    then show ?thesis using xy by (auto simp: fround_def leq_def)
  qed
qed

lemma double_idem: "double x = Fin y \<Longrightarrow> double y = Fin y"
proof -
  assume d: "double x = Fin y"
  then have x: "\<bar>x\<bar> < 2 ^ 1024 - 2 ^ 970" by (auto simp: double_def split: if_splits)
  with d have y: "y = round64 x" by (simp add: double_Fin)
  have "\<bar>y\<bar> \<le> 2 ^ 1024 - 2 ^ 971" unfolding y using x by (rule round64_finite)
  then have "\<bar>y\<bar> < 2 ^ 1024 - 2 ^ 970" by simp
  moreover have "\<bar>x\<bar> < 2 ^ 1024" using x by simp
  ultimately show ?thesis by (simp add: double_Fin y round64_idem)
qed


subsection \<open>Numbers that are kept\<close>

lemma normUp_numeral:
  "normUp (numeral k) x = (if x < 2 then 0 else normUp (pred_numeral k) (x / 2) + 1)"
  by (simp add: numeral_eq_Suc)

lemma normDown_numeral:
  "normDown (numeral k) x = (if 1 \<le> x then 0 else normDown (pred_numeral k) (2 * x) - 1)"
  by (simp add: numeral_eq_Suc)

lemmas fp_eval = double_def fround_def round64_def round32_def roundTo_def expo_def rne_def Let_def
  normUp_numeral normDown_numeral

lemma double_zero [simp]: "double 0 = Fin 0"
  using double_int [of 0] by simp

lemma double_one [simp]: "double 1 = Fin 1"
  using double_int [of 1] by simp

lemma double_neg_one [simp]: "double (- 1) = Fin (- 1)"
  using double_int [of "- 1"] by simp

lemma fround_neg_one [simp]: "fround (- 1) = Fin (- 1)"
  using fround_int [of "- 1"] by simp

lemma double_numeral [simp]:
  "(numeral k :: int) \<le> 2 ^ 53 \<Longrightarrow> double (numeral k) = Fin (numeral k)"
  using double_int [of "numeral k"] by simp

lemma double_neg_numeral [simp]:
  "(numeral k :: int) \<le> 2 ^ 53 \<Longrightarrow> double (- numeral k) = Fin (- numeral k)"
  using double_int [of "- numeral k"] by simp

lemma fround_zero [simp]: "fround 0 = Fin 0"
  using fround_int [of 0] by simp

lemma fround_one [simp]: "fround 1 = Fin 1"
  using fround_int [of 1] by simp

lemma fround_numeral [simp]:
  "(numeral k :: int) \<le> 2 ^ 24 \<Longrightarrow> fround (numeral k) = Fin (numeral k)"
  using fround_int [of "numeral k"] by simp

lemma fround_neg_numeral [simp]:
  "(numeral k :: int) \<le> 2 ^ 24 \<Longrightarrow> fround (- numeral k) = Fin (- numeral k)"
  using fround_int [of "- numeral k"] by simp

lemma double_nat: "n \<le> 2 ^ 53 \<Longrightarrow> double (real n) = Fin (real n)"
proof -
  assume "n \<le> 2 ^ 53"
  then have "\<bar>int n\<bar> \<le> 2 ^ 53" by (simp add: of_nat_le_iff [of n "2 ^ 53", where ?'a = int, simplified])
  from double_int [OF this] show ?thesis by simp
qed

subsection \<open>The order of the numbers\<close>

lemma lt_irrefl [simp]: "\<not> lt a a"
  by (cases a) simp_all

lemma lt_trans: "lt a b \<Longrightarrow> lt b c \<Longrightarrow> lt a c"
  by (cases a; cases b; cases c) simp_all

lemma leq_refl [simp]: "leq a a"
  by (simp add: leq_def)

lemma leq_total: "leq a b \<or> leq b a"
  by (cases a; cases b) (auto simp: leq_def)

lemma leq_trans: "leq a b \<Longrightarrow> leq b c \<Longrightarrow> leq a c"
  by (cases a; cases b; cases c) (simp_all add: leq_def)

lemma leq_antisym: "leq a b \<Longrightarrow> leq b a \<Longrightarrow> a = b"
  by (cases a; cases b) (simp_all add: leq_def)

lemma lt_leq: "lt a b \<Longrightarrow> leq a b"
  by (cases a; cases b) (simp_all add: leq_def)

lemma leq_Fin [simp]: "leq (Fin a) (Fin b) = (a \<le> b)"
  by (auto simp: leq_def)

lemma leq_PosInf [simp]: "leq a PosInf" "leq PosInf a = (a = PosInf)"
  by (cases a; simp add: leq_def)+

lemma leq_NegInf [simp]: "leq NegInf a" "leq a NegInf = (a = NegInf)"
  by (cases a; simp add: leq_def)+


section \<open>Properties of the study difference engine\<close>

lemma computeVolumeDifference_mismatch:
  "length (data volA) \<noteq> length (data volB) \<Longrightarrow> computeVolumeDifference volA volB = None"
  by (simp add: computeVolumeDifference_def)

lemma computeVolumeDifference_match:
  "length (data volA) = length (data volB) \<Longrightarrow> computeVolumeDifference volA volB \<noteq> None"
  by (simp add: computeVolumeDifference_def Let_def split: prod.splits)

text \<open>
  Claim C4. \<^verbatim>\<open>computeVolumeDifference\<close> yields no result exactly when the data arrays
  of the two volumes differ in length. The failure is the value \<open>None\<close>, which carries no
  array, no range and no dimensions: there is nothing partial for a caller to act on.
\<close>

theorem computeVolumeDifference_fails_iff:
  "(computeVolumeDifference volA volB = None) = (length (data volA) \<noteq> length (data volB))"
  using computeVolumeDifference_mismatch [of volA volB] computeVolumeDifference_match [of volA volB]
  by blast

lemma diffLoop_length:
  "length (fst (diffLoop dA dB len i (d, mn, mx))) = length d"
proof (induction dA dB len i "(d, mn, mx)" arbitrary: d mn mx rule: diffLoop.induct)
  case (1 dA dB len i d mn mx)
  show ?case
    using 1 by (subst diffLoop.simps) (simp add: Let_def)
qed

lemma diffLoop_nth:
  "j < length d \<Longrightarrow>
   fst (diffLoop dA dB len i (d, mn, mx)) ! j =
     (if i \<le> j \<and> j < len then jsFround (jsSub (dB ! j) (dA ! j)) else d ! j)"
proof (induction dA dB len i "(d, mn, mx)" arbitrary: d mn mx rule: diffLoop.induct)
  case (1 dA dB len i d mn mx)
  show ?case
  proof (cases "i < len")
    case True
    note IH = "1.hyps" [OF True refl refl refl refl]
    from True IH "1.prems" show ?thesis
      by (subst diffLoop.simps) (cases "j = i"; auto simp: Let_def nth_list_update)
  next
    case False
    then show ?thesis by (subst diffLoop.simps) auto
  qed
qed

lemma diffLoop_range:
  "snd (diffLoop dA dB len i (d, mn, mx)) =
     (foldl accMin mn (map (\<lambda>j. jsSub (dB ! j) (dA ! j)) [i..<len]),
      foldl accMax mx (map (\<lambda>j. jsSub (dB ! j) (dA ! j)) [i..<len]))"
proof (induction dA dB len i "(d, mn, mx)" arbitrary: d mn mx rule: diffLoop.induct)
  case (1 dA dB len i d mn mx)
  show ?case
  proof (cases "i < len")
    case True
    then show ?thesis
      using 1 by (subst diffLoop.simps) (simp add: Let_def upt_conv_Cons accMin_def accMax_def)
  next
    case False
    then show ?thesis by (subst diffLoop.simps) simp
  qed
qed

lemma foldl_accMin:
  "\<exists>n. foldl accMin (Num m) ds = Num n \<and> leq n m \<and> (n = m \<or> Num n \<in> set ds) \<and>
       (\<forall>k. Num k \<in> set ds \<longrightarrow> leq n k)"
proof (induction ds arbitrary: m)
  case Nil
  show ?case by simp
next
  case (Cons d ds)
  show ?case
  proof (cases d)
    case NaN
    then have "accMin (Num m) d = Num m" by (simp add: accMin_def)
    with Cons [of m] NaN show ?thesis by auto
  next
    case (Num k)
    show ?thesis
    proof (cases "lt k m")
      case True
      then have a: "accMin (Num m) d = Num k" using Num by (simp add: accMin_def)
      from Cons [of k] obtain n where n: "foldl accMin (Num k) ds = Num n" "leq n k"
        "n = k \<or> Num n \<in> set ds" "\<forall>j. Num j \<in> set ds \<longrightarrow> leq n j" by blast
      have "leq n m" using n(2) lt_leq [OF True] by (rule leq_trans)
      with n a Num show ?thesis by auto
    next
      case False
      then have a: "accMin (Num m) d = Num m" using Num by (simp add: accMin_def)
      from False have mk: "leq m k" by (simp add: leq_def)
      from Cons [of m] obtain n where n: "foldl accMin (Num m) ds = Num n" "leq n m"
        "n = m \<or> Num n \<in> set ds" "\<forall>j. Num j \<in> set ds \<longrightarrow> leq n j" by blast
      have "leq n k" using n(2) mk by (rule leq_trans)
      with n a Num show ?thesis by auto
    qed
  qed
qed

lemma foldl_accMax:
  "\<exists>n. foldl accMax (Num m) ds = Num n \<and> leq m n \<and> (n = m \<or> Num n \<in> set ds) \<and>
       (\<forall>k. Num k \<in> set ds \<longrightarrow> leq k n)"
proof (induction ds arbitrary: m)
  case Nil
  show ?case by simp
next
  case (Cons d ds)
  show ?case
  proof (cases d)
    case NaN
    then have "accMax (Num m) d = Num m" by (simp add: accMax_def jsGt_def)
    with Cons [of m] NaN show ?thesis by auto
  next
    case (Num k)
    show ?thesis
    proof (cases "lt m k")
      case True
      then have a: "accMax (Num m) d = Num k" using Num by (simp add: accMax_def jsGt_def)
      from Cons [of k] obtain n where n: "foldl accMax (Num k) ds = Num n" "leq k n"
        "n = k \<or> Num n \<in> set ds" "\<forall>j. Num j \<in> set ds \<longrightarrow> leq j n" by blast
      have "leq m n" using lt_leq [OF True] n(2) by (rule leq_trans)
      with n a Num show ?thesis by auto
    next
      case False
      then have a: "accMax (Num m) d = Num m" using Num by (simp add: accMax_def jsGt_def)
      from False have mk: "leq k m" by (simp add: leq_def)
      from Cons [of m] obtain n where n: "foldl accMax (Num m) ds = Num n" "leq m n"
        "n = m \<or> Num n \<in> set ds" "\<forall>j. Num j \<in> set ds \<longrightarrow> leq j n" by blast
      have "leq k n" using mk n(2) by (rule leq_trans)
      with n a Num show ?thesis by auto
    qed
  qed
qed

lemma mkVolume_sel [simp]:
  "data (mkVolume d dims lo hi) = d" "dimensions (mkVolume d dims lo hi) = dims"
  "vmin (mkVolume d dims lo hi) = lo" "vmax (mkVolume d dims lo hi) = hi"
  by (simp_all add: mkVolume_def)

lemma computeVolumeDifference_Some:
  assumes "length (data volA) = length (data volB)"
  shows "\<exists>r. computeVolumeDifference volA volB = Some r \<and>
           data r = fst (diffLoop (data volA) (data volB) (length (data volA)) 0
                      (replicate (length (data volA)) (num 0), Num PosInf, Num NegInf)) \<and>
           (vmin r, vmax r) = snd (diffLoop (data volA) (data volB) (length (data volA)) 0
                      (replicate (length (data volA)) (num 0), Num PosInf, Num NegInf)) \<and>
           dimensions r = dimensions volA"
  using assms by (simp add: computeVolumeDifference_def Let_def split: prod.splits)

lemma least_number:
  assumes "foldl accMin (Num PosInf) ds = v"
  shows "\<exists>n. v = Num n" and "\<forall>d \<in> set ds. isNum d \<longrightarrow> jsLe v d"
    and "(\<exists>d \<in> set ds. isNum d) \<longrightarrow> v \<in> set ds"
    and "(\<forall>d \<in> set ds. \<not> isNum d) \<longrightarrow> v = Num PosInf"
proof -
  from foldl_accMin [of PosInf ds] assms obtain n where n: "v = Num n"
    "n = PosInf \<or> Num n \<in> set ds" "\<forall>k. Num k \<in> set ds \<longrightarrow> leq n k" by auto
  show "\<exists>n. v = Num n" using n(1) by blast
  show "\<forall>d \<in> set ds. isNum d \<longrightarrow> jsLe v d"
  proof (intro ballI impI)
    fix d assume m: "d \<in> set ds" and i: "isNum d"
    from i obtain k where dk: "d = Num k" using isNum_def by (cases d) simp_all
    with m have "Num k \<in> set ds" by simp
    with n dk show "jsLe v d" by simp
  qed
  show "(\<exists>d \<in> set ds. isNum d) \<longrightarrow> v \<in> set ds"
  proof
    assume "\<exists>d \<in> set ds. isNum d"
    then obtain k where k: "Num k \<in> set ds" by (metis isNum_def jsval.exhaust)
    show "v \<in> set ds"
    proof (cases "n = PosInf")
      case True
      with n(3) k have "k = PosInf" by auto
      with k True n(1) show ?thesis by simp
    next
      case False
      with n show ?thesis by simp
    qed
  qed
  show "(\<forall>d \<in> set ds. \<not> isNum d) \<longrightarrow> v = Num PosInf"
    using n by (auto simp: isNum_def)
qed

lemma greatest_number:
  assumes "foldl accMax (Num NegInf) ds = v"
  shows "\<exists>n. v = Num n" and "\<forall>d \<in> set ds. isNum d \<longrightarrow> jsLe d v"
    and "(\<exists>d \<in> set ds. isNum d) \<longrightarrow> v \<in> set ds"
    and "(\<forall>d \<in> set ds. \<not> isNum d) \<longrightarrow> v = Num NegInf"
proof -
  from foldl_accMax [of NegInf ds] assms obtain n where n: "v = Num n"
    "n = NegInf \<or> Num n \<in> set ds" "\<forall>k. Num k \<in> set ds \<longrightarrow> leq k n" by auto
  show "\<exists>n. v = Num n" using n(1) by blast
  show "\<forall>d \<in> set ds. isNum d \<longrightarrow> jsLe d v"
  proof (intro ballI impI)
    fix d assume m: "d \<in> set ds" and i: "isNum d"
    from i obtain k where dk: "d = Num k" using isNum_def by (cases d) simp_all
    with m have "Num k \<in> set ds" by simp
    with n dk show "jsLe d v" by simp
  qed
  show "(\<exists>d \<in> set ds. isNum d) \<longrightarrow> v \<in> set ds"
  proof
    assume "\<exists>d \<in> set ds. isNum d"
    then obtain k where k: "Num k \<in> set ds" by (metis isNum_def jsval.exhaust)
    show "v \<in> set ds"
    proof (cases "n = NegInf")
      case True
      with n(3) k have "k = NegInf" by auto
      with k True n(1) show ?thesis by simp
    next
      case False
      with n show ?thesis by simp
    qed
  qed
  show "(\<forall>d \<in> set ds. \<not> isNum d) \<longrightarrow> v = Num NegInf"
    using n by (auto simp: isNum_def)
qed

lemma jsSub_self: "isFinite v \<Longrightarrow> jsSub v v = num 0"
  by (cases v) (auto simp: isFinite_def split: jsnum.splits)

lemma jsFround_zero: "jsFround (num 0) = num 0"
  by simp

lemma diff_data_set:
  assumes "length d = n" and "\<forall>i<n. d ! i = f i"
  shows "d = map f [0..<n]"
  using assms by (intro nth_equalityI) simp_all

text \<open>
  Claim C2, as amended. For two volumes whose data arrays have the same length,
  \<^verbatim>\<open>computeVolumeDifference\<close> returns a result of that length whose element at every
  index \<open>i\<close> is the binary64 difference \<open>B[i] - A[i]\<close> rounded to binary32, the format
  of the output array. The reported range is taken from the differences before that
  rounding: among the differences that are numbers, \<open>min\<close> is a least and \<open>max\<close> a
  greatest one; a difference that is NaN is passed over, and with no number among the
  differences, as on empty arrays, the result keeps the initial values
  \<^verbatim>\<open>min = Infinity\<close> and \<^verbatim>\<open>max = -Infinity\<close>. The difference of a volume of finite
  samples with itself is all zero, with \<open>min = max = 0\<close> when the volume is not empty.
\<close>

theorem computeVolumeDifference_values:
  assumes "length (data volA) = length (data volB)"
  shows "\<exists>r. computeVolumeDifference volA volB = Some r \<and>
           length (data r) = length (data volA) \<and>
           (\<forall>i < length (data volA). data r ! i = jsFround (jsSub (data volB ! i) (data volA ! i))) \<and>
           (\<forall>d \<in> set (differences (data volA) (data volB)).
              isNum d \<longrightarrow> jsLe (vmin r) d \<and> jsLe d (vmax r)) \<and>
           ((\<exists>d \<in> set (differences (data volA) (data volB)). isNum d) \<longrightarrow>
              vmin r \<in> set (differences (data volA) (data volB)) \<and>
              vmax r \<in> set (differences (data volA) (data volB))) \<and>
           ((\<forall>d \<in> set (differences (data volA) (data volB)). \<not> isNum d) \<longrightarrow>
              vmin r = Num PosInf \<and> vmax r = Num NegInf) \<and>
           (volB = volA \<and> (\<forall>v \<in> set (data volA). isFinite v) \<longrightarrow>
              data r = replicate (length (data volA)) (num 0) \<and>
              (data volA \<noteq> [] \<longrightarrow> vmin r = num 0 \<and> vmax r = num 0))"
proof -
  let ?n = "length (data volA)"
  let ?ds = "differences (data volA) (data volB)"
  from computeVolumeDifference_Some [OF assms] obtain r where
    r: "computeVolumeDifference volA volB = Some r"
    and d: "data r = fst (diffLoop (data volA) (data volB) ?n 0 (replicate ?n (num 0), Num PosInf, Num NegInf))"
    and mm: "(vmin r, vmax r) = snd (diffLoop (data volA) (data volB) ?n 0 (replicate ?n (num 0), Num PosInf, Num NegInf))"
    by blast
  have len: "length (data r) = ?n"
    by (simp add: d diffLoop_length)
  have nth: "\<forall>i < ?n. data r ! i = jsFround (jsSub (data volB ! i) (data volA ! i))"
    by (simp add: d diffLoop_nth)
  have mn: "foldl accMin (Num PosInf) ?ds = vmin r" and mx: "foldl accMax (Num NegInf) ?ds = vmax r"
    using mm by (simp_all add: diffLoop_range differences_def)
  note lo = least_number [OF mn] and hi = greatest_number [OF mx]
  have bnd: "\<forall>d \<in> set ?ds. isNum d \<longrightarrow> jsLe (vmin r) d \<and> jsLe d (vmax r)"
    using lo(2) hi(2) by blast
  have att: "(\<exists>d \<in> set ?ds. isNum d) \<longrightarrow> vmin r \<in> set ?ds \<and> vmax r \<in> set ?ds"
    using lo(3) hi(3) by blast
  have none: "(\<forall>d \<in> set ?ds. \<not> isNum d) \<longrightarrow> vmin r = Num PosInf \<and> vmax r = Num NegInf"
    using lo(4) hi(4) by blast
  have self: "volB = volA \<and> (\<forall>v \<in> set (data volA). isFinite v) \<longrightarrow>
      data r = replicate ?n (num 0) \<and> (data volA \<noteq> [] \<longrightarrow> vmin r = num 0 \<and> vmax r = num 0)"
  proof
    assume a: "volB = volA \<and> (\<forall>v \<in> set (data volA). isFinite v)"
    have z: "jsSub (data volB ! i) (data volA ! i) = num 0" if "i < ?n" for i
      using a that by (simp add: jsSub_self)
    have dat: "data r = replicate ?n (num 0)"
      using len nth z by (intro nth_equalityI) simp_all
    have ds: "?ds = replicate ?n (num 0)"
      using z by (intro nth_equalityI) (simp_all add: differences_def)
    have "vmin r = num 0 \<and> vmax r = num 0" if ne: "data volA \<noteq> []"
    proof -
      have s: "set ?ds = {num 0}" using ne by (simp add: ds)
      have "\<exists>d \<in> set ?ds. isNum d" unfolding s by (simp add: isNum_def)
      with att show ?thesis unfolding s by simp
    qed
    with dat show "data r = replicate ?n (num 0) \<and> (data volA \<noteq> [] \<longrightarrow> vmin r = num 0 \<and> vmax r = num 0)"
      by blast
  qed
  from r len nth bnd att none self show ?thesis by blast
qed

lemma exAB_differences: "differences (data exA) (data exB) = [num 3, num (- 1), num 2]"
  by (simp add: differences_def exA_def exB_def upt_rec)

text \<open>
  The theorem at the volumes \<open>[1, 5, 2]\<close> and \<open>[4, 4, 4]\<close>.
\<close>

theorem computeVolumeDifference_values_witness:
  "length (data exA) = length (data exB) \<and>
   map_option data (computeVolumeDifference exA exB) = Some [num 3, num (- 1), num 2] \<and>
   map_option vmin (computeVolumeDifference exA exB) = Some (num (- 1)) \<and>
   map_option vmax (computeVolumeDifference exA exB) = Some (num 3)"
proof -
  have h: "length (data exA) = length (data exB)"
    by (simp add: exA_def exB_def)
  from computeVolumeDifference_values [OF h] obtain r where
    r: "computeVolumeDifference exA exB = Some r"
    and len: "length (data r) = length (data exA)"
    and nth: "\<forall>i < length (data exA). data r ! i = jsFround (jsSub (data exB ! i) (data exA ! i))"
    and bnd: "\<forall>d \<in> set (differences (data exA) (data exB)). isNum d \<longrightarrow> jsLe (vmin r) d \<and> jsLe d (vmax r)"
    and att: "(\<exists>d \<in> set (differences (data exA) (data exB)). isNum d) \<longrightarrow>
              vmin r \<in> set (differences (data exA) (data exB)) \<and>
              vmax r \<in> set (differences (data exA) (data exB))"
    by blast
  have "data r = map (\<lambda>i. jsFround (jsSub (data exB ! i) (data exA ! i))) [0..<length (data exA)]"
    using len nth by (rule diff_data_set)
  then have d: "data r = [num 3, num (- 1), num 2]"
    by (simp add: exA_def exB_def upt_rec)
  have inn: "vmin r \<in> {num 3, num (- 1), num 2}" "vmax r \<in> {num 3, num (- 1), num 2}"
    using att by (simp_all add: exAB_differences isNum_def)
  have b: "jsLe (vmin r) (num (- 1))" "jsLe (num 3) (vmax r)"
    using bnd by (simp_all add: exAB_differences isNum_def)
  have "vmin r = num (- 1)" using inn(1) b(1) by auto
  moreover have "vmax r = num 3" using inn(2) b(2) by auto
  ultimately show ?thesis using h r d by simp
qed

text \<open>
  The claim as first stated asks for \<open>min = max = 0\<close> on every self-difference. On a
  volume with an empty data array the loop never runs and the range stays at the two
  infinities.
\<close>

theorem computeVolumeDifference_self_counterexample:
  "map_option data (computeVolumeDifference exEmpty exEmpty) = Some [] \<and>
   map_option vmin (computeVolumeDifference exEmpty exEmpty) = Some (Num PosInf) \<and>
   map_option vmax (computeVolumeDifference exEmpty exEmpty) = Some (Num NegInf) \<and>
   map_option vmin (computeVolumeDifference exEmpty exEmpty) \<noteq> Some (num 0)"
  by (simp add: computeVolumeDifference_def exEmpty_def diffLoop.simps)

text \<open>
  It also asks for the exact minimum and maximum of the output. From a volume holding
  the least 32-bit integer to one holding the greatest, the difference is
  \<open>4294967295\<close>, which is the reported minimum and maximum; the output array holds its
  binary32 rounding, \<open>4294967296\<close>.
\<close>

lemma computeVolumeDifference_rounds:
  "map_option data (computeVolumeDifference exInt32Min exInt32Max) = Some [num 4294967296] \<and>
   map_option vmin (computeVolumeDifference exInt32Min exInt32Max) = Some (num 4294967295) \<and>
   map_option vmax (computeVolumeDifference exInt32Min exInt32Max) = Some (num 4294967295)"
proof -
  have f: "fround 4294967295 = Fin 4294967296"
    by (simp add: fp_eval)
  show ?thesis
    by (simp add: computeVolumeDifference_def exInt32Min_def exInt32Max_def diffLoop.simps
          Let_def f jsGt_def)
qed

lemma segDiffLoop_length:
  "length (segDiffLoop dataA dataB len i d) = length d"
proof (induction dataA dataB len i d rule: segDiffLoop.induct)
  case (1 dataA dataB len i d)
  show ?case
  proof (cases "i < len")
    case True
    note IH = "1.IH" [OF True refl refl refl]
    from True IH show ?thesis
      by (subst segDiffLoop.simps) (simp add: Let_def)
  next
    case False
    then show ?thesis by (subst segDiffLoop.simps) simp
  qed
qed

lemma segDiffLoop_nth:
  "j < length d \<Longrightarrow>
   segDiffLoop dataA dataB len i d ! j =
     (if i \<le> j \<and> j < len then category (present dataA j) (present dataB j) else d ! j)"
proof (induction dataA dataB len i d rule: segDiffLoop.induct)
  case (1 dataA dataB len i d)
  show ?case
  proof (cases "i < len")
    case True
    note IH = "1.IH" [OF True refl refl refl]
    from True IH "1.prems" show ?thesis
      by (subst segDiffLoop.simps) (cases "j = i"; auto simp: Let_def nth_list_update category_def)
  next
    case False
    then show ?thesis by (subst segDiffLoop.simps) simp
  qed
qed

lemma present_replicate_0 [simp]: "present (replicate n 0) i = False"
  by (simp add: present_def)

lemma computeSegmentationDifference_Some:
  assumes "segDiffLen segA segB \<noteq> 0"
  shows "\<exists>r. computeSegmentationDifference segA segB dimRef = Some r \<and>
           dimensions r = dimRef \<and> vmin r = 0 \<and> vmax r = 3 \<and>
           length (data r) = segDiffLen segA segB \<and>
           (\<forall>i < segDiffLen segA segB. data r ! i = category (presentIn segA i) (presentIn segB i))"
  using assms
  by (cases segA; cases segB; cases dimRef)
     (simp_all add: computeSegmentationDifference_def segDiffLen_def presentIn_def Let_def
        segDiffLoop_length segDiffLoop_nth)

lemma computeSegmentationDifference_None:
  "segDiffLen segA segB = 0 \<Longrightarrow> computeSegmentationDifference segA segB dimRef = None"
  by (cases segA; cases segB) (simp_all add: computeSegmentationDifference_def segDiffLen_def)

text \<open>
  Claim C3. Whenever \<^verbatim>\<open>computeSegmentationDifference\<close> has a non-zero length to work
  on (at least one mask is present and the first present one is not empty), it returns a
  mask that classifies every voxel by presence (value \<open>> 0\<close>) in each input mask, a
  missing mask counting as all zero: absent in both gives 0, present in A only gives 1,
  present in B only gives 2, present in both gives 3. So on two masks with the same data
  every positive voxel gets 3 and every other voxel 0; and on disjoint masks label 3
  never occurs: every voxel present in one of the masks gets 1 or 2, and the voxels of
  neither keep the background label 0.
\<close>

theorem computeSegmentationDifference_categories:
  assumes "segDiffLen segA segB \<noteq> 0"
  shows "\<exists>r. computeSegmentationDifference segA segB dimRef = Some r \<and>
           length (data r) = segDiffLen segA segB \<and>
           (\<forall>i < length (data r).
              (\<not> presentIn segA i \<and> \<not> presentIn segB i \<longrightarrow> data r ! i = 0) \<and>
              (presentIn segA i \<and> \<not> presentIn segB i \<longrightarrow> data r ! i = 1) \<and>
              (\<not> presentIn segA i \<and> presentIn segB i \<longrightarrow> data r ! i = 2) \<and>
              (presentIn segA i \<and> presentIn segB i \<longrightarrow> data r ! i = 3)) \<and>
           (map_option data segB = map_option data segA \<longrightarrow>
              (\<forall>i < length (data r). data r ! i = (if presentIn segA i then 3 else 0))) \<and>
           ((\<forall>i. \<not> (presentIn segA i \<and> presentIn segB i)) \<longrightarrow>
              (\<forall>i < length (data r). data r ! i \<noteq> 3 \<and> data r ! i \<in> {0, 1, 2} \<and>
                 (presentIn segA i \<or> presentIn segB i \<longrightarrow> data r ! i \<in> {1, 2})))"
proof -
  from computeSegmentationDifference_Some [OF assms, of dimRef] obtain r where
    r: "computeSegmentationDifference segA segB dimRef = Some r"
    and len: "length (data r) = segDiffLen segA segB"
    and nth: "\<forall>i < segDiffLen segA segB. data r ! i = category (presentIn segA i) (presentIn segB i)"
    by blast
  have cat: "\<forall>i < length (data r).
      (\<not> presentIn segA i \<and> \<not> presentIn segB i \<longrightarrow> data r ! i = 0) \<and>
      (presentIn segA i \<and> \<not> presentIn segB i \<longrightarrow> data r ! i = 1) \<and>
      (\<not> presentIn segA i \<and> presentIn segB i \<longrightarrow> data r ! i = 2) \<and>
      (presentIn segA i \<and> presentIn segB i \<longrightarrow> data r ! i = 3)"
    using nth len by (simp add: category_def)
  have same: "map_option data segB = map_option data segA \<longrightarrow>
      (\<forall>i < length (data r). data r ! i = (if presentIn segA i then 3 else 0))"
  proof
    assume eq: "map_option data segB = map_option data segA"
    have "presentIn segB i = presentIn segA i" for i
      using eq by (cases segA; cases segB) (simp_all add: presentIn_def)
    then show "\<forall>i < length (data r). data r ! i = (if presentIn segA i then 3 else 0)"
      using nth len by (simp add: category_def)
  qed
  have disj: "(\<forall>i. \<not> (presentIn segA i \<and> presentIn segB i)) \<longrightarrow>
      (\<forall>i < length (data r). data r ! i \<noteq> 3 \<and> data r ! i \<in> {0, 1, 2} \<and>
         (presentIn segA i \<or> presentIn segB i \<longrightarrow> data r ! i \<in> {1, 2}))"
    using nth len by (auto simp: category_def)
  from r len cat same disj show ?thesis by blast
qed

lemma list_of_length_4: "length xs = 4 \<Longrightarrow> xs = [xs ! 0, xs ! 1, xs ! 2, xs ! 3]"
  by (auto simp: numeral_eq_Suc length_Suc_conv)

text \<open>The theorem at the masks \<open>[1, 0, 1, 0]\<close> and \<open>[0, 0, 1, 1]\<close>.\<close>

theorem computeSegmentationDifference_categories_witness:
  "segDiffLen (Some exMaskA) (Some exMaskB) \<noteq> 0 \<and>
   map_option data (computeSegmentationDifference (Some exMaskA) (Some exMaskB) (4, 1, 1))
     = Some [1, 0, 3, 2]"
proof -
  have h: "segDiffLen (Some exMaskA) (Some exMaskB) \<noteq> 0"
    by (simp add: segDiffLen_def exMaskA_def)
  from computeSegmentationDifference_categories [OF h, of "(4, 1, 1)"] obtain r where
    r: "computeSegmentationDifference (Some exMaskA) (Some exMaskB) (4, 1, 1) = Some r"
    and len: "length (data r) = segDiffLen (Some exMaskA) (Some exMaskB)"
    and cat: "\<forall>i < length (data r).
      (\<not> presentIn (Some exMaskA) i \<and> \<not> presentIn (Some exMaskB) i \<longrightarrow> data r ! i = 0) \<and>
      (presentIn (Some exMaskA) i \<and> \<not> presentIn (Some exMaskB) i \<longrightarrow> data r ! i = 1) \<and>
      (\<not> presentIn (Some exMaskA) i \<and> presentIn (Some exMaskB) i \<longrightarrow> data r ! i = 2) \<and>
      (presentIn (Some exMaskA) i \<and> presentIn (Some exMaskB) i \<longrightarrow> data r ! i = 3)"
    by blast
  have len4: "length (data r) = 4"
    using len by (simp add: segDiffLen_def exMaskA_def)
  have e0: "data r ! 0 = 1"
    using cat [rule_format, of 0] len4 by (simp add: presentIn_def present_def exMaskA_def exMaskB_def)
  have e1: "data r ! 1 = 0"
    using cat [rule_format, of 1] len4 by (simp add: presentIn_def present_def exMaskA_def exMaskB_def)
  have e2: "data r ! 2 = 3"
    using cat [rule_format, of 2] len4 by (simp add: presentIn_def present_def exMaskA_def exMaskB_def)
  have e3: "data r ! 3 = 2"
    using cat [rule_format, of 3] len4 by (simp add: presentIn_def present_def exMaskA_def exMaskB_def)
  have "data r = [1, 0, 3, 2]"
    using list_of_length_4 [OF len4] e0 e1 e2 e3 by simp
  with h r show ?thesis by simp
qed

text \<open>
  Claim C8 asks that the output of \<^verbatim>\<open>computeSegmentationDifference\<close> has the
  dimensions \<open>dimRef\<close> and a data array of length \<open>dimRef[0]*dimRef[1]*dimRef[2]\<close>.
  The code takes the dimensions from \<open>dimRef\<close> and the length from the first present
  mask, and compares the two nowhere. With no mask for the first study, a mask of two
  voxels for the second and the dimensions \<open>(3, 1, 1)\<close> of the first study's volume,
  the result has dimensions \<open>(3, 1, 1)\<close> and two voxels.
\<close>

theorem computeSegmentationDifference_dimRef_mismatch:
  "map_option dimensions (computeSegmentationDifference (None :: (real list, real) VolumeData option) (Some exMask2) (3, 1, 1)) = Some (3, 1, 1) \<and>
   map_option (\<lambda>r. length (data r)) (computeSegmentationDifference (None :: (real list, real) VolumeData option) (Some exMask2) (3, 1, 1)) = Some 2 \<and>
   map_option data (computeSegmentationDifference (None :: (real list, real) VolumeData option) (Some exMask2) (3, 1, 1)) = Some [2, 0]"
  by (simp add: computeSegmentationDifference_def exMask2_def segDiffLoop.simps present_def)

section \<open>Properties of the histogram estimator\<close>

lemma histStride_pos: "0 < histStride len"
  by (simp add: histStride_def div_greater_zero_iff)

lemma histLoop_length: "length (histLoop dat mn step stride i h) = length h"
proof (induction dat mn step stride i h rule: histLoop.induct)
  case (1 dat mn step stride i h)
  show ?case
  proof (cases "i < length dat \<and> 0 < stride")
    case True
    note IH = "1.IH" [OF True refl refl refl]
    from True IH show ?thesis
      by (subst histLoop.simps) (simp add: Let_def)
  next
    case False
    then show ?thesis by (subst histLoop.simps) auto
  qed
qed

lemma sum_list_incr:
  fixes h :: "nat list"
  shows "b < length h \<Longrightarrow> sum_list (h[b := Suc (h ! b)]) = Suc (sum_list h)"
  by (simp add: sum_list_update)

lemma stride_next:
  assumes "i \<le> j" "(s::nat) dvd (j - i)" "j \<noteq> i"
  shows "i + s \<le> j \<and> s dvd (j - (i + s))"
proof -
  from assms(2) obtain k where k: "j - i = s * k" by (rule dvdE)
  from assms(1,3) have "0 < j - i" by simp
  with k have "0 < k" by (cases k) simp_all
  then obtain k' where k': "k = Suc k'" by (cases k) simp_all
  from k k' have e: "j - i = s + s * k'" by simp
  then have "j = i + s + s * k'" using assms(1) by linarith
  then show ?thesis by simp
qed

lemma stride_prev:
  assumes "i + s \<le> j" "(s::nat) dvd (j - (i + s))"
  shows "i \<le> j \<and> j \<noteq> i \<or> s = 0" "s dvd (j - i)"
proof -
  show "i \<le> j \<and> j \<noteq> i \<or> s = 0" using assms(1) by (cases s) simp_all
  have "j - i = (j - (i + s)) + s" using assms(1) by simp
  then show "s dvd (j - i)" using assms(2) by simp
qed

lemma stride_set_step:
  assumes "i < len" and "0 < (s::nat)"
  shows "{j. i \<le> j \<and> j < len \<and> s dvd (j - i) \<and> P j} =
         (if P i then {i} else {}) \<union> {j. i + s \<le> j \<and> j < len \<and> s dvd (j - (i + s)) \<and> P j}"
    (is "?L = ?R")
proof (rule set_eqI)
  fix j
  show "j \<in> ?L \<longleftrightarrow> j \<in> ?R"
  proof (cases "j = i")
    case True
    then show ?thesis using assms by simp
  next
    case False
    have "j \<in> ?L \<longleftrightarrow> (i \<le> j \<and> j < len \<and> s dvd (j - i) \<and> P j)" by simp
    also have "\<dots> \<longleftrightarrow> (i + s \<le> j \<and> j < len \<and> s dvd (j - (i + s)) \<and> P j)"
      using stride_next [of i j s] stride_prev [of i s j] False assms(2) by blast
    also have "\<dots> \<longleftrightarrow> j \<in> ?R" using False by simp
    finally show ?thesis .
  qed
qed

lemma inBins_index: "inBins bin \<Longrightarrow> binIndex bin < 256"
proof (cases bin)
  case NaN
  assume "inBins bin"
  with NaN show ?thesis by (simp add: inBins_def jsGe_def)
next
  case (Num n)
  assume "inBins bin"
  with Num obtain b where b: "n = Fin b" "0 \<le> b" "b < 256"
    by (cases n) (simp_all add: inBins_def jsGe_def)
  then have "0 \<le> \<lfloor>b\<rfloor>" "\<lfloor>b\<rfloor> < 256" by linarith+
  then have "nat \<lfloor>b\<rfloor> < 256" by linarith
  then show ?thesis using Num b by (simp add: binIndex_def)
qed

lemma histLoop_sum:
  "length h = 256 \<Longrightarrow> 0 < stride \<Longrightarrow>
   sum_list (histLoop dat mn step stride i h) =
     sum_list h + card {j. i \<le> j \<and> j < length dat \<and> stride dvd (j - i) \<and>
                          inBins (binOf mn step (dat ! j))}"
proof (induction dat mn step stride i h rule: histLoop.induct)
  case (1 dat mn step stride i h)
  define P where "P = (\<lambda>j. inBins (binOf mn step (dat ! j)))"
  let ?S = "\<lambda>i. {j. i \<le> j \<and> j < length dat \<and> stride dvd (j - i) \<and> P j}"
  have main: "sum_list (histLoop dat mn step stride i h) = sum_list h + card (?S i)"
  proof (cases "i < length dat")
    case True
    with "1.prems" have c: "i < length dat \<and> 0 < stride" by simp
    define h' where "h' = (if inBins (binOf mn step (dat ! i))
       then h[binIndex (binOf mn step (dat ! i)) := h ! binIndex (binOf mn step (dat ! i)) + 1] else h)"
    have len': "length h' = 256" using "1.prems" by (simp add: h'_def)
    have IH: "sum_list (histLoop dat mn step stride (i + stride) h') = sum_list h' + card (?S (i + stride))"
      unfolding P_def using "1.IH" [OF c refl refl refl] len' "1.prems"(2) unfolding h'_def by blast
    have unfold: "histLoop dat mn step stride i h = histLoop dat mn step stride (i + stride) h'"
      using c by (subst histLoop.simps) (simp add: Let_def h'_def)
    have fin: "finite (?S (i + stride))" by simp
    have notin: "i \<notin> ?S (i + stride)" using "1.prems" by simp
    have split: "?S i = (if P i then {i} else {}) \<union> ?S (i + stride)"
      using stride_set_step [OF True "1.prems"(2), of P] .
    have card: "card (?S i) = (if P i then 1 else 0) + card (?S (i + stride))"
    proof (cases "P i")
      case True
      then have "?S i = insert i (?S (i + stride))" by (subst split) simp
      then show ?thesis using True card_insert_disjoint [OF fin notin] by simp
    next
      case False
      then have "?S i = ?S (i + stride)" by (subst split) simp
      then show ?thesis using False by simp
    qed
    have sum': "sum_list h' = sum_list h + (if P i then 1 else 0)"
    proof (cases "P i")
      case True
      then have b: "inBins (binOf mn step (dat ! i))" unfolding P_def .
      then have "binIndex (binOf mn step (dat ! i)) < length h"
        using "1.prems" inBins_index by simp
      moreover have "h' = h[binIndex (binOf mn step (dat ! i)) := h ! binIndex (binOf mn step (dat ! i)) + 1]"
        unfolding h'_def using b by (rule if_P)
      ultimately show ?thesis using True by (simp add: sum_list_incr)
    next
      case False
      then have "\<not> inBins (binOf mn step (dat ! i))" unfolding P_def .
      then have "h' = h" unfolding h'_def by (rule if_not_P)
      then show ?thesis using False by simp
    qed
    show ?thesis
      unfolding unfold IH card sum' by simp
  next
    case False
    then have "?S i = {}" by auto
    moreover have "histLoop dat mn step stride i h = h"
      using False by (subst histLoop.simps) simp
    ultimately show ?thesis by simp
  qed
  then show ?case unfolding P_def .
qed

lemma length_filter_upt: "length (filter P [0..<n]) = card {i. i < n \<and> P i}"
  by (simp add: length_filter_conv_card cong: conj_cong)

lemma getHistogram_length: "length (fst (getHistogram dat mn mx)) = 256"
  by (simp add: getHistogram_def Let_def histLoop_length)

lemma getHistogram_sum:
  "sum_list (fst (getHistogram dat mn mx)) = length (filter (counted dat mn mx) (visited (length dat)))"
proof -
  have "sum_list (fst (getHistogram dat mn mx)) =
      card {j. j < length dat \<and> histStride (length dat) dvd j \<and> counted dat mn mx j}"
    by (simp add: getHistogram_def Let_def histLoop_sum histStride_pos counted_def)
  also have "\<dots> = length (filter (\<lambda>j. histStride (length dat) dvd j \<and> counted dat mn mx j) [0..<length dat])"
    by (simp add: length_filter_upt)
  also have "\<dots> = length (filter (counted dat mn mx) (visited (length dat)))"
    by (simp add: visited_def conj_commute)
  finally show ?thesis .
qed


lemma multiples_below:
  assumes "0 < (s::nat)"
  shows "card {i. i < len \<and> s dvd i} \<le> len div s + 1"
proof -
  have "{i. i < len \<and> s dvd i} \<subseteq> (\<lambda>k. s * k) ` {k. k \<le> len div s}"
  proof
    fix i assume "i \<in> {i. i < len \<and> s dvd i}"
    then have i: "i < len" "s dvd i" by simp_all
    from i(2) obtain k where k: "i = s * k" by (rule dvdE)
    have "k = i div s" using k assms by simp
    also have "\<dots> \<le> len div s" using i(1) by (simp add: div_le_mono)
    finally show "i \<in> (\<lambda>k. s * k) ` {k. k \<le> len div s}" using k by blast
  qed
  then have "card {i. i < len \<and> s dvd i} \<le> card ((\<lambda>k. s * k) ` {k. k \<le> len div s})"
    by (intro card_mono) simp_all
  also have "\<dots> \<le> card {k. k \<le> len div s}" by (intro card_image_le) simp
  also have "\<dots> = len div s + 1" by simp
  finally show ?thesis .
qed

lemma visited_le: "length (visited len) \<le> 2000000"
proof (cases "len \<le> 2000000")
  case True
  then show ?thesis by (simp add: visited_def histStride_def)
next
  case False
  define s where "s = len div 500000"
  from False have s4: "4 \<le> s" unfolding s_def by linarith
  have "len < 500000 * (s + 1)" unfolding s_def
    using div_less_iff_less_mult [of 500000 len "len div 500000 + 1"] by (simp add: mult.commute)
  also have "\<dots> \<le> 1000000 * s" using s4 by simp
  finally have "len div s < 1000000"
    using s4 by (simp add: div_less_iff_less_mult)
  moreover have "length (visited len) = card {i. i < len \<and> s dvd i}"
    using False by (simp add: visited_def histStride_def s_def length_filter_upt)
  moreover have "card {i. i < len \<and> s dvd i} \<le> len div s + 1"
    using s4 by (intro multiples_below) simp
  ultimately show ?thesis by linarith
qed






text \<open>
  A sample below the maximum can be dropped as well. With the range 0 to 105 the step
  is the binary64 number nearest to \<open>256 / 105\<close>; its product with the greatest
  binary64 number below 105 rounds to 256, and the sample is not counted.
\<close>

lemma getHistogram_drops_below_max:
  "sum_list (fst (getHistogram exBelowMax (num 0) (num 105))) = 0 \<and>
   length (visited (length exBelowMax)) = 1 \<and>
   jsLe (num 0) (exBelowMax ! 0) \<and> jsLt (exBelowMax ! 0) (num 105)"
proof -
  have "\<not> counted exBelowMax (num 0) (num 105) 0"
    by (simp add: counted_def binOf_def inBins_def jsGe_def jsOrOne_def exBelowMax_def fp_eval)
  then show ?thesis
    by (simp add: getHistogram_sum visited_def histStride_def exBelowMax_def)
qed

section \<open>Properties of the Li threshold solver\<close>

lemma weightLoop_sums:
  "0 \<le> i \<Longrightarrow> hi \<le> int (length h) \<Longrightarrow>
   weightLoop h i hi (Some w, Some s) =
     (Some (w + (\<Sum>k \<in> {i..<hi}. int (h ! nat k))), Some (s + (\<Sum>k \<in> {i..<hi}. k * int (h ! nat k))))"
proof (induction h i hi "(Some w, Some s)" arbitrary: w s rule: weightLoop.induct)
  case (1 h i hi)
  show ?case
  proof (cases "i < hi")
    case True
    have at: "histAt h i = Some (int (h ! nat i))"
      using True "1.prems" by (simp add: histAt_def)
    have set: "{i..<hi} = insert i {i + 1..<hi}" using True by auto
    have IH: "weightLoop h (i + 1) hi (Some (w + int (h ! nat i)), Some (s + i * int (h ! nat i))) =
      (Some (w + int (h ! nat i) + (\<Sum>k \<in> {i + 1..<hi}. int (h ! nat k))),
       Some (s + i * int (h ! nat i) + (\<Sum>k \<in> {i + 1..<hi}. k * int (h ! nat k))))"
      using "1.hyps" [of "w + int (h ! nat i)" "s + i * int (h ! nat i)"] True "1.prems"
      by (simp add: at addN_def)
    show ?thesis
      using True by (subst weightLoop.simps) (simp add: at addN_def IH set)
  next
    case False
    then show ?thesis by (subst weightLoop.simps) simp
  qed
qed

lemma weighted_sum_bounds:
  fixes c :: "int \<Rightarrow> int"
  assumes "\<And>k. k \<in> S \<Longrightarrow> 0 \<le> c k" and "\<And>k. k \<in> S \<Longrightarrow> lo \<le> k \<and> k \<le> hi"
  shows "lo * (\<Sum>k \<in> S. c k) \<le> (\<Sum>k \<in> S. k * c k)" and "(\<Sum>k \<in> S. k * c k) \<le> hi * (\<Sum>k \<in> S. c k)"
proof -
  have "(\<Sum>k \<in> S. lo * c k) \<le> (\<Sum>k \<in> S. k * c k)"
    using assms by (intro sum_mono mult_right_mono) auto
  then show "lo * (\<Sum>k \<in> S. c k) \<le> (\<Sum>k \<in> S. k * c k)"
    by (simp add: sum_distrib_left)
  have "(\<Sum>k \<in> S. k * c k) \<le> (\<Sum>k \<in> S. hi * c k)"
    using assms by (intro sum_mono mult_right_mono) auto
  then show "(\<Sum>k \<in> S. k * c k) \<le> hi * (\<Sum>k \<in> S. c k)"
    by (simp add: sum_distrib_left)
qed

lemma mean_bounds:
  fixes s w lo hi :: int
  assumes "0 < w" "lo * w \<le> s" "s \<le> hi * w"
  shows "real_of_int lo \<le> real_of_int s / real_of_int w" and "real_of_int s / real_of_int w \<le> real_of_int hi"
proof -
  have w: "0 < real_of_int w" using assms(1) by simp
  have "real_of_int lo * real_of_int w \<le> real_of_int s"
    using assms(2) by (metis of_int_le_iff of_int_mult)
  then show "real_of_int lo \<le> real_of_int s / real_of_int w"
    using w by (simp add: pos_le_divide_eq)
  have "real_of_int s \<le> real_of_int hi * real_of_int w"
    using assms(3) by (metis of_int_le_iff of_int_mult)
  then show "real_of_int s / real_of_int w \<le> real_of_int hi"
    using w by (simp add: pos_divide_le_eq)
qed

lemma log_mean_bounds:
  fixes a b :: real
  assumes "0 < a" "a < b"
  shows "a \<le> (b - a) / (ln b - ln a)" and "(b - a) / (ln b - ln a) \<le> b"
proof -
  have b: "0 < b" using assms by simp
  have d: "0 < ln b - ln a" using assms by simp
  have "ln (b / a) \<le> b / a - 1" using assms b by (intro ln_le_minus_one) simp
  then have "ln b - ln a \<le> (b - a) / a"
    using assms b by (simp add: ln_div diff_divide_distrib)
  then have "a * (ln b - ln a) \<le> b - a"
    using assms(1) by (simp add: pos_le_divide_eq mult.commute)
  then show "a \<le> (b - a) / (ln b - ln a)"
    using d by (simp add: pos_le_divide_eq)
  have "ln (a / b) \<le> a / b - 1" using assms b by (intro ln_le_minus_one) simp
  then have "ln a - ln b \<le> (a - b) / b"
    using assms b by (simp add: ln_div diff_divide_distrib)
  then have "(b - a) / b \<le> ln b - ln a"
    by (simp add: diff_divide_distrib)
  then have "b - a \<le> b * (ln b - ln a)"
    using b by (simp add: pos_divide_le_eq mult.commute)
  then show "(b - a) / (ln b - ln a) \<le> b"
    using d by (simp add: pos_divide_le_eq)
qed

lemma round_bounds:
  fixes x :: real
  assumes "0 \<le> x" "x \<le> 255"
  shows "0 \<le> round x \<and> round x \<le> 255"
proof -
  have "0 \<le> round x" using assms(1) by (simp add: round_def)
  moreover have "round x \<le> round (255::real)" using assms(2) by (rule round_mono)
  ultimately show ?thesis by simp
qed

lemma liTemp_bounded:
  assumes "0 \<le> mB" "mB < mF" "mF \<le> 255"
  shows "\<exists>temp. liTemp mB mF = Some temp \<and> 0 \<le> temp \<and> temp \<le> 255"
proof (cases "mB = 0")
  case True
  then show ?thesis using assms by (simp add: liTemp_def)
next
  case False
  then have pos: "0 < mB" using assms(1) by simp
  have "liTemp mB mF = Some ((mF - mB) / (ln mF - ln mB))"
    using False assms pos by (simp add: liTemp_def)
  moreover have "mB \<le> (mF - mB) / (ln mF - ln mB)" "(mF - mB) / (ln mF - ln mB) \<le> mF"
    using log_mean_bounds [OF pos assms(2)] by simp_all
  ultimately show ?thesis using assms pos by simp
qed

lemma liLoop_step:
  assumes len: "length h = 256" and t: "0 \<le> t" "t \<le> 255"
  shows "liLoop h iter t =
           (if 50 \<le> iter \<or> bgWeight h t = 0 \<or> fgWeight h t = 0 \<or> liUpdate h t = t then Some t
            else liLoop h (Suc iter) (liUpdate h t))"
    and "bgWeight h t \<noteq> 0 \<Longrightarrow> fgWeight h t \<noteq> 0 \<Longrightarrow> 0 \<le> liUpdate h t \<and> liUpdate h t \<le> 255"
proof -
  define c where "c = (\<lambda>k. int (h ! nat k))"
  define wB where "wB = (\<Sum>k \<in> {0..<t + 1}. c k)"
  define sumB where "sumB = (\<Sum>k \<in> {0..<t + 1}. k * c k)"
  define wF where "wF = (\<Sum>k \<in> {t + 1..<256}. c k)"
  define sumF where "sumF = (\<Sum>k \<in> {t + 1..<256}. k * c k)"
  define mB where "mB = real_of_int sumB / real_of_int wB"
  define mF where "mF = real_of_int sumF / real_of_int wF"
  have names: "bgWeight h t = wB" "fgWeight h t = wF" "bgMean h t = mB" "fgMean h t = mF"
    by (simp_all add: bgWeight_def fgWeight_def bgMean_def fgMean_def wB_def wF_def sumB_def sumF_def
        mB_def mF_def c_def)
  have c0: "0 \<le> c k" for k by (simp add: c_def)
  have B: "weightLoop h 0 (t + 1) (Some 0, Some 0) = (Some wB, Some sumB)"
    using weightLoop_sums [of 0 "t + 1" h 0 0] t len by (simp add: wB_def sumB_def c_def)
  have F: "weightLoop h (t + 1) 256 (Some 0, Some 0) = (Some wF, Some sumF)"
    using weightLoop_sums [of "t + 1" 256 h 0 0] t len by (simp add: wF_def sumF_def c_def)
  have wB0: "0 \<le> wB" unfolding wB_def by (intro sum_nonneg c0)
  have wF0: "0 \<le> wF" unfolding wF_def by (intro sum_nonneg c0)
  have pos: "liTemp mB mF = Some (if mB = 0 then 0 else (mF - mB) / (ln mF - ln mB)) \<and>
             0 \<le> liUpdate h t \<and> liUpdate h t \<le> 255 \<and>
             liUpdate h t = round (if mB = 0 then 0 else (mF - mB) / (ln mF - ln mB))"
    if nz: "wB \<noteq> 0" "wF \<noteq> 0"
  proof -
    from nz wB0 wF0 have wBp: "0 < wB" and wFp: "0 < wF" by simp_all
    have inB: "0 \<le> k \<and> k \<le> t" if "k \<in> {0..<t + 1}" for k using that by auto
    have inF: "t + 1 \<le> k \<and> k \<le> 255" if "k \<in> {t + 1..<256}" for k using that by auto
    have sB1: "0 * wB \<le> sumB"
      unfolding wB_def sumB_def by (rule weighted_sum_bounds(1) [where hi = t]) (rule c0, rule inB)
    have sB2: "sumB \<le> t * wB"
      unfolding wB_def sumB_def by (rule weighted_sum_bounds(2) [where lo = 0]) (rule c0, rule inB)
    have sF1: "(t + 1) * wF \<le> sumF"
      unfolding wF_def sumF_def by (rule weighted_sum_bounds(1) [where hi = 255]) (rule c0, rule inF)
    have sF2: "sumF \<le> 255 * wF"
      unfolding wF_def sumF_def by (rule weighted_sum_bounds(2) [where lo = "t + 1"]) (rule c0, rule inF)
    have mB: "0 \<le> mB" "mB \<le> real_of_int t"
      unfolding mB_def using mean_bounds [OF wBp sB1 sB2] by simp_all
    have mF: "real_of_int (t + 1) \<le> mF" "mF \<le> 255"
      unfolding mF_def using mean_bounds [OF wFp sF1 sF2] by simp_all
    have lt: "mB < mF" using mB(2) mF(1) by simp
    have mFp: "0 < mF" using mF(1) t(1) by simp
    from liTemp_bounded [OF mB(1) lt mF(2)] obtain temp where
      temp: "liTemp mB mF = Some temp" "0 \<le> temp" "temp \<le> 255" by blast
    have val: "temp = (if mB = 0 then 0 else (mF - mB) / (ln mF - ln mB))"
      using temp(1) lt mFp by (simp add: liTemp_def split: if_splits)
    have r: "0 \<le> round temp \<and> round temp \<le> 255"
      using temp by (intro round_bounds)
    have "liUpdate h t = round temp"
      unfolding val by (simp add: liUpdate_def names)
    then show ?thesis using temp(1) r val by simp
  qed
  show "bgWeight h t \<noteq> 0 \<Longrightarrow> fgWeight h t \<noteq> 0 \<Longrightarrow> 0 \<le> liUpdate h t \<and> liUpdate h t \<le> 255"
    using pos by (simp add: names)
  show "liLoop h iter t =
           (if 50 \<le> iter \<or> bgWeight h t = 0 \<or> fgWeight h t = 0 \<or> liUpdate h t = t then Some t
            else liLoop h (Suc iter) (liUpdate h t))"
  proof (cases "iter < 50")
    case False
    then show ?thesis by (subst liLoop.simps) simp
  next
    case it: True
    show ?thesis
    proof (cases "wB = 0 \<or> wF = 0")
      case True
      then have "liLoop h iter t = Some t"
        using it by (subst liLoop.simps) (auto simp: B F)
      then show ?thesis using True by (auto simp: names)
    next
      case False
      then have nz: "wB \<noteq> 0" "wF \<noteq> 0" by simp_all
      note p = pos [OF nz]
      have "liLoop h iter t =
          (if liUpdate h t = t then Some t else liLoop h (Suc iter) (liUpdate h t))"
        using it False p
        by (subst liLoop.simps) (simp add: B F Let_def mB_def [symmetric] mF_def [symmetric])
      then show ?thesis using it False by (simp add: names)
    qed
  qed
qed

lemma liLoop_bounded:
  "length h = 256 \<Longrightarrow> 0 \<le> t \<Longrightarrow> t \<le> 255 \<Longrightarrow>
   \<exists>r. liLoop h iter t = Some r \<and> 0 \<le> r \<and> r \<le> 255"
proof (induction "50 - iter" arbitrary: iter t)
  case 0
  then have "liLoop h iter t = Some t" by (subst liLoop.simps) simp
  then show ?case using 0 by simp
next
  case (Suc n)
  note step = liLoop_step [OF Suc.prems]
  show ?case
  proof (cases "50 \<le> iter \<or> bgWeight h t = 0 \<or> fgWeight h t = 0 \<or> liUpdate h t = t")
    case True
    then have "liLoop h iter t = Some t" using step(1) [of iter] by simp
    then show ?thesis using Suc.prems by simp
  next
    case False
    then have eq: "liLoop h iter t = liLoop h (Suc iter) (liUpdate h t)"
      using step(1) [of iter] by simp
    from False have u: "0 \<le> liUpdate h t" "liUpdate h t \<le> 255" using step(2) by simp_all
    have "n = 50 - Suc iter" using Suc.hyps(2) by simp
    from Suc.hyps(1) [OF this Suc.prems(1) u] show ?thesis by (simp add: eq)
  qed
qed

lemma sum_list_as_sum:
  fixes h :: "nat list"
  shows "int (sum_list h) = (\<Sum>k \<in> {0..<int (length h)}. int (h ! nat k))"
proof -
  have "sum_list h = (\<Sum>i = 0..<length h. h ! i)" by (simp add: sum_list_sum_nth)
  then have "int (sum_list h) = (\<Sum>i \<in> {0..<length h}. int (h ! i))" by simp
  also have "\<dots> = (\<Sum>k \<in> int ` {0..<length h}. int (h ! nat k))"
    by (simp add: sum.reindex)
  also have "int ` {0..<length h} = {0..<int (length h)}"
    by (simp add: image_int_atLeastLessThan)
  finally show ?thesis .
qed

text \<open>
  Claim C5. For every 256-bin histogram with a positive total count, the Li solver
  returns a threshold, and it lies in \<open>[0, 255]\<close>. It starts from the rounded histogram
  mean; from a threshold \<open>t\<close> in \<open>[0, 255]\<close> it stops with \<open>t\<close> after 50 rounds, when the
  background or the foreground has weight 0, or when the update
  \<open>round((mF - mB) / (ln(mF) - ln(mB)))\<close> gives \<open>t\<close> again, and goes on with the update
  otherwise. (With \<open>mB = 0\<close> the logarithm is \<^verbatim>\<open>-Infinity\<close> and the update is 0.)
\<close>

theorem computeLiThreshold_in_range:
  assumes "length h = 256" and "tot = sum_list h" and "0 < tot"
  shows "(\<exists>r. computeLiThreshold h tot = Some r \<and> 0 \<le> r \<and> r \<le> 255) \<and>
         computeLiThreshold h tot = liLoop h 0 (round (histMean h tot)) \<and>
         (\<forall>t iter. 0 \<le> t \<and> t \<le> 255 \<longrightarrow>
            liLoop h iter t =
              (if 50 \<le> iter \<or> bgWeight h t = 0 \<or> fgWeight h t = 0 \<or> liUpdate h t = t then Some t
               else liLoop h (Suc iter) (liUpdate h t)))"
proof -
  define c where "c = (\<lambda>k. int (h ! nat k))"
  define S where "S = (\<Sum>k \<in> {0..<256}. k * c k)"
  define W where "W = (\<Sum>k \<in> {0..<256}. c k)"
  have c0: "0 \<le> c k" for k by (simp add: c_def)
  have wl: "weightLoop h 0 256 (Some 0, Some 0) = (Some W, Some S)"
    using weightLoop_sums [of 0 256 h 0 0] assms(1) by (simp add: W_def S_def c_def)
  have W: "W = int tot"
    using sum_list_as_sum [of h] assms(1,2) by (simp add: W_def c_def)
  then have Wp: "0 < W" using assms(3) by simp
  have in256: "0 \<le> k \<and> k \<le> 255" if "k \<in> {0..<256}" for k :: int using that by auto
  have S1: "0 * W \<le> S"
    unfolding W_def S_def by (rule weighted_sum_bounds(1) [where hi = 255]) (rule c0, rule in256)
  have S2: "S \<le> 255 * W"
    unfolding W_def S_def by (rule weighted_sum_bounds(2) [where lo = 0]) (rule c0, rule in256)
  have mean: "0 \<le> real_of_int S / real tot" "real_of_int S / real tot \<le> 255"
    using mean_bounds [OF Wp S1 S2] by (simp_all add: W)
  have hm: "histMean h tot = real_of_int S / real tot"
    by (simp add: histMean_def S_def c_def)
  have r: "0 \<le> round (histMean h tot)" "round (histMean h tot) \<le> 255"
    using round_bounds [OF mean] by (simp_all add: hm)
  have init: "computeLiThreshold h tot = liLoop h 0 (round (histMean h tot))"
    using assms(3) by (simp add: computeLiThreshold_def wl hm Let_def)
  have "\<exists>r. computeLiThreshold h tot = Some r \<and> 0 \<le> r \<and> r \<le> 255"
    unfolding init using liLoop_bounded [OF assms(1) r] .
  moreover have "\<forall>t iter. 0 \<le> t \<and> t \<le> 255 \<longrightarrow>
            liLoop h iter t =
              (if 50 \<le> iter \<or> bgWeight h t = 0 \<or> fgWeight h t = 0 \<or> liUpdate h t = t then Some t
               else liLoop h (Suc iter) (liUpdate h t))"
    using liLoop_step(1) [OF assms(1)] by blast
  ultimately show ?thesis using init by blast
qed

lemma exHist_tail: "2 \<le> k \<Longrightarrow> k < 256 \<Longrightarrow> exHist ! nat k = 0"
  by (simp add: exHist_def nth_append)

lemma exHist_mean: "histMean exHist 4 = 1 / 4"
proof -
  have "(\<Sum>k \<in> {0..<256::int}. k * int (exHist ! nat k)) =
        (\<Sum>k \<in> {0..<2}. k * int (exHist ! nat k)) + (\<Sum>k \<in> {2..<256}. k * int (exHist ! nat k))"
    by (simp add: sum.union_disjoint [symmetric] ivl_disj_un)
  moreover have "(\<Sum>k \<in> {2..<256::int}. k * int (exHist ! nat k)) = 0"
    by (intro sum.neutral) (simp add: exHist_tail)
  moreover have "{0..<2::int} = {0, 1}" by auto
  then have "(\<Sum>k \<in> {0..<2::int}. k * int (exHist ! nat k)) = 1"
    by (simp add: exHist_def)
  ultimately show ?thesis by (simp add: histMean_def)
qed

lemma exHist_update: "liUpdate exHist 0 = 0"
proof -
  have "{0..<0 + 1::int} = {0}" by auto
  then have "bgMean exHist 0 = 0" by (simp add: bgMean_def)
  then show ?thesis by (simp add: liUpdate_def)
qed

text \<open>The theorem at the histogram with 3 samples in bin 0 and 1 sample in bin 1.\<close>

theorem computeLiThreshold_in_range_witness:
  "length exHist = 256 \<and> (4::nat) = sum_list exHist \<and> (0::nat) < 4 \<and>
   computeLiThreshold exHist 4 = Some 0"
proof -
  have h1: "length exHist = 256" by (simp add: exHist_def)
  have h2: "(4::nat) = sum_list exHist" by (simp add: exHist_def)
  have h3: "(0::nat) < 4" by simp
  from computeLiThreshold_in_range [OF h1 h2 h3]
  have init: "computeLiThreshold exHist 4 = liLoop exHist 0 (round (histMean exHist 4))"
    and step: "\<forall>t iter. 0 \<le> t \<and> t \<le> 255 \<longrightarrow>
            liLoop exHist iter t =
              (if 50 \<le> iter \<or> bgWeight exHist t = 0 \<or> fgWeight exHist t = 0 \<or> liUpdate exHist t = t
               then Some t else liLoop exHist (Suc iter) (liUpdate exHist t))"
    by blast+
  have "round (histMean exHist 4) = 0" by (simp add: exHist_mean round_def)
  then have "computeLiThreshold exHist 4 = liLoop exHist 0 0" using init by simp
  also have "\<dots> = Some 0" using step [rule_format, of 0 0] by (simp add: exHist_update)
  finally show ?thesis using h1 h2 h3 by blast
qed

section \<open>Properties of the brush\<close>

lemma fold_concat_fold: "fold f (concat xss) = fold (fold f) xss"
  by (induction xss) simp_all

lemma paintLoops_offsets:
  "paintLoops dims x y z val r a st =
     fold (\<lambda>(dx, dy, dz). paintAt dims x y z val (r * r) a dz dy dx) (offsets r) st"
  by (simp add: paintLoops_def offsets_def Let_def fold_concat_fold fold_map comp_def)

lemma paintAt_write:
  "paintAt dims x y z val (r * r) a dz dy dx st =
     (if dx * dx + dy * dy + dz * dz \<le> r * r \<and> inVolume dims (x + dx, y + dy, z + dz)
      then writeArr a (voxelIndex dims (x + dx, y + dy, z + dz)) val st else st)"
  by (cases dims) (simp add: paintAt_def inVolume_def voxelIndex_def Let_def)

lemma fold_paintAt_filter:
  "fold (\<lambda>(dx, dy, dz). paintAt dims x y z val (r * r) a dz dy dx) os st =
     fold (\<lambda>p. writeArr a (voxelIndex dims p) val)
       (filter (inVolume dims)
          (map (\<lambda>(dx, dy, dz). (x + dx, y + dy, z + dz))
             (filter (\<lambda>(dx, dy, dz). dx * dx + dy * dy + dz * dz \<le> r * r) os))) st"
  by (induction os arbitrary: st) (auto simp: paintAt_write)

lemma paintLoops_writes:
  "paintLoops dims x y z val r a st =
     fold (\<lambda>p. writeArr a (voxelIndex dims p) val) (brushVoxels dims x y z r) st"
  by (simp add: paintLoops_offsets fold_paintAt_filter brushVoxels_def ballOffsets_def)

lemma fold_writeArr:
  "a < length st \<Longrightarrow>
   fold (\<lambda>p. writeArr a (f p) v) ps st = st[a := fold (\<lambda>p d. d[f p := v]) ps (st ! a)]"
  by (induction ps arbitrary: st) (simp_all add: writeArr_def)

lemma fold_update_length: "length (fold (\<lambda>p d. d[f p := v]) ps d) = length d"
  by (induction ps arbitrary: d) simp_all

lemma fold_update_nth:
  "i < length d \<Longrightarrow>
   fold (\<lambda>p d. d[f p := v]) ps d ! i = (if i \<in> f ` set ps then v else d ! i)"
  by (induction ps arbitrary: d) (auto simp: nth_list_update)

lemma paintLoops_array:
  assumes "a < length st"
  shows "length (paintLoops dims x y z val r a st) = length st"
    and "length (arrayAt (paintLoops dims x y z val r a st) a) = length (arrayAt st a)"
    and "i < length (arrayAt st a) \<Longrightarrow>
         arrayAt (paintLoops dims x y z val r a st) a ! i =
           (if i \<in> voxelIndex dims ` set (brushVoxels dims x y z r) then val else arrayAt st a ! i)"
    and "b \<noteq> a \<Longrightarrow> arrayAt (paintLoops dims x y z val r a st) b = arrayAt st b"
  using assms
  by (simp_all add: paintLoops_writes fold_writeArr arrayAt_def fold_update_length fold_update_nth)

lemma quot_rem_unique:
  fixes a b n r s :: int
  assumes "a * n + r = b * n + s" "0 \<le> r" "r < n" "0 \<le> s" "s < n"
  shows "a = b \<and> r = s"
proof -
  have "(a * n + r) div n = a" "(a * n + r) mod n = r"
    using assms(2,3) by simp_all
  moreover have "(b * n + s) div n = b" "(b * n + s) mod n = s"
    using assms(4,5) by simp_all
  ultimately show ?thesis using assms(1) by metis
qed

lemma voxelIndex_inj:
  assumes "inVolume dims p" "inVolume dims q" "voxelIndex dims p = voxelIndex dims q"
  shows "p = q"
proof -
  obtain X Y Z where dims: "dims = (X, Y, Z)" by (cases dims)
  obtain px py pz where p: "p = (px, py, pz)" by (cases p)
  obtain qx qy qz where q: "q = (qx, qy, qz)" by (cases q)
  from assms(1) have P: "0 \<le> px" "px < int X" "0 \<le> py" "py < int Y" "0 \<le> pz"
    by (simp_all add: inVolume_def dims p)
  from assms(2) have Q: "0 \<le> qx" "qx < int X" "0 \<le> qy" "qy < int Y" "0 \<le> qz"
    by (simp_all add: inVolume_def dims q)
  have np: "0 \<le> (pz * int Y + py) * int X + px" using P by simp
  have nq: "0 \<le> (qz * int Y + qy) * int X + qx" using Q by simp
  have "nat ((pz * int Y + py) * int X + px) = nat ((qz * int Y + qy) * int X + qx)"
    using assms(3) by (simp add: voxelIndex_def dims p q algebra_simps)
  then have "(pz * int Y + py) * int X + px = (qz * int Y + qy) * int X + qx"
    using np nq by linarith
  from quot_rem_unique [OF this P(1,2) Q(1,2)]
  have e1: "pz * int Y + py = qz * int Y + qy" and ex: "px = qx" by simp_all
  from quot_rem_unique [OF e1 P(3,4) Q(3,4)]
  have "pz = qz" "py = qy" by simp_all
  with ex show ?thesis by (simp add: p q)
qed

lemma voxelIndex_less:
  assumes "inVolume (X, Y, Z) p"
  shows "voxelIndex (X, Y, Z) p < X * Y * Z"
proof -
  obtain px py pz where p: "p = (px, py, pz)" by (cases p)
  from assms have P: "0 \<le> px" "px < int X" "0 \<le> py" "py < int Y" "0 \<le> pz" "pz < int Z"
    by (simp_all add: inVolume_def p)
  have "py * int X + px < int Y * int X"
  proof -
    have "py * int X + px < py * int X + int X" using P by simp
    also have "\<dots> = (py + 1) * int X" by (simp add: algebra_simps)
    also have "\<dots> \<le> int Y * int X" using P by (intro mult_right_mono) simp_all
    finally show ?thesis .
  qed
  then have "pz * (int X * int Y) + py * int X + px < pz * (int X * int Y) + int X * int Y"
    by (simp add: mult.commute)
  also have "\<dots> = (pz + 1) * (int X * int Y)" by (simp add: algebra_simps)
  also have "\<dots> \<le> int Z * (int X * int Y)" using P by (intro mult_right_mono) simp_all
  finally have lt: "pz * int X * int Y + py * int X + px < int (X * Y * Z)"
    by (simp add: algebra_simps)
  have "0 \<le> pz * int X * int Y + py * int X + px" using P by simp
  with lt have "nat (pz * int X * int Y + py * int X + px) < X * Y * Z" by linarith
  then show ?thesis by (simp add: voxelIndex_def p)
qed

lemma set_offsets:
  "(dx, dy, dz) \<in> set (offsets r) \<longleftrightarrow>
     - r \<le> dx \<and> dx \<le> r \<and> - r \<le> dy \<and> dy \<le> r \<and> - r \<le> dz \<and> dz \<le> r"
  by (force simp: offsets_def)

lemma set_brushVoxels:
  "p \<in> set (brushVoxels dims x y z r) \<longleftrightarrow> inVolume dims p \<and> inBrush x y z r p"
proof -
  obtain px py pz where p: "p = (px, py, pz)" by (cases p)
  have "(px, py, pz) \<in> (\<lambda>(dx, dy, dz). (x + dx, y + dy, z + dz)) ` set (ballOffsets r) \<longleftrightarrow>
        (px - x, py - y, pz - z) \<in> set (ballOffsets r)"
    by (force simp: image_iff)
  then show ?thesis
    by (auto simp: brushVoxels_def p inBrush_def ballOffsets_def set_offsets)
qed

lemma set_ballOffsets:
  "set (ballOffsets r) =
     {(dx, dy, dz). - r \<le> dx \<and> dx \<le> r \<and> - r \<le> dy \<and> dy \<le> r \<and> - r \<le> dz \<and> dz \<le> r \<and>
                    dx * dx + dy * dy + dz * dz \<le> r * r}"
  by (auto simp: ballOffsets_def set_offsets)

lemma brush_count:
  assumes "interior dims x y z r"
  shows "card (voxelIndex dims ` {p. inVolume dims p \<and> inBrush x y z r p}) = card (set (ballOffsets r))"
proof -
  obtain X Y Z where dims: "dims = (X, Y, Z)" by (cases dims)
  define shift :: "int \<times> int \<times> int \<Rightarrow> int \<times> int \<times> int"
    where "shift = (\<lambda>(dx, dy, dz). (x + dx, y + dy, z + dz))"
  have shift: "shift (dx, dy, dz) = (x + dx, y + dy, z + dz)" for dx dy dz
    by (simp add: shift_def)
  have inside: "inVolume dims (shift ofs)" if "ofs \<in> set (ballOffsets r)" for ofs
  proof -
    obtain dx dy dz where o: "ofs = (dx, dy, dz)" by (cases ofs)
    from that have "- r \<le> dx \<and> dx \<le> r \<and> - r \<le> dy \<and> dy \<le> r \<and> - r \<le> dz \<and> dz \<le> r"
      by (simp add: set_ballOffsets o)
    then show ?thesis using assms by (simp add: inVolume_def interior_def dims o shift)
  qed
  have brush: "inBrush x y z r (shift ofs)" if "ofs \<in> set (ballOffsets r)" for ofs
  proof -
    obtain dx dy dz where o: "ofs = (dx, dy, dz)" by (cases ofs)
    from that show ?thesis by (simp add: set_ballOffsets inBrush_def o shift)
  qed
  have surj: "p \<in> shift ` set (ballOffsets r)" if "inBrush x y z r p" for p
  proof -
    obtain px py pz where p: "p = (px, py, pz)" by (cases p)
    from that have m: "(px - x, py - y, pz - z) \<in> set (ballOffsets r)"
      by (simp add: set_ballOffsets inBrush_def p)
    have "p = shift (px - x, py - y, pz - z)" by (simp add: p shift)
    then show ?thesis using m by (rule image_eqI)
  qed
  have eq: "{p. inVolume dims p \<and> inBrush x y z r p} = shift ` set (ballOffsets r)"
  proof (intro set_eqI iffI)
    fix p assume "p \<in> {p. inVolume dims p \<and> inBrush x y z r p}"
    then show "p \<in> shift ` set (ballOffsets r)" using surj by simp
  next
    fix p assume "p \<in> shift ` set (ballOffsets r)"
    then obtain ofs where "ofs \<in> set (ballOffsets r)" "p = shift ofs" by blast
    then show "p \<in> {p. inVolume dims p \<and> inBrush x y z r p}"
      using inside brush by simp
  qed
  have shift_inj: "a = b" if "shift a = shift b" for a b
  proof -
    obtain a1 a2 a3 where a: "a = (a1, a2, a3)" by (cases a)
    obtain b1 b2 b3 where b: "b = (b1, b2, b3)" by (cases b)
    from that show ?thesis by (simp add: a b shift)
  qed
  have inj: "inj_on (\<lambda>ofs. voxelIndex dims (shift ofs)) (set (ballOffsets r))"
  proof (rule inj_onI)
    fix a b assume a: "a \<in> set (ballOffsets r)" and b: "b \<in> set (ballOffsets r)"
      and e: "voxelIndex dims (shift a) = voxelIndex dims (shift b)"
    from voxelIndex_inj [OF inside [OF a] inside [OF b] e]
    show "a = b" by (rule shift_inj)
  qed
  have "voxelIndex dims ` {p. inVolume dims p \<and> inBrush x y z r p} =
        (\<lambda>ofs. voxelIndex dims (shift ofs)) ` set (ballOffsets r)"
    unfolding eq by (rule image_image)
  then show ?thesis using card_image [OF inj] by simp
qed

lemma ball_count_1: "card (set (ballOffsets 1)) = 7"
  by code_simp

lemma handleDraw_result:
  assumes "data vol < length st"
    and "case seg of None \<Rightarrow> True | Some sv \<Rightarrow> data sv < length st"
  shows "\<exists>sv st1. handleDraw st (Some vol) seg x y z val r =
            (paintLoops (dimensions vol) x y z val r (data sv) st1, Some sv) \<and>
          data sv = (case seg of Some s \<Rightarrow> data s | None \<Rightarrow> length st) \<and>
          data sv < length st1 \<and>
          arrayAt st1 (data sv) = maskBefore st vol seg \<and>
          (\<forall>b < length st. arrayAt st1 b = arrayAt st b)"
proof (cases seg)
  case None
  let ?st1 = "st @ [replicate (length (arrayAt st (data vol))) 0]"
  let ?sv = "\<lparr> header = (header vol)(''datatypeCode'' \<mapsto> HNum 2), data = length st,
                dimensions = dimensions vol, vmin = 0::real, vmax = 1::real \<rparr>"
  have "handleDraw st (Some vol) seg x y z val r =
            (paintLoops (dimensions vol) x y z val r (data ?sv) ?st1, Some ?sv) \<and>
          data ?sv = (case seg of Some s \<Rightarrow> data s | None \<Rightarrow> length st) \<and>
          data ?sv < length ?st1 \<and>
          arrayAt ?st1 (data ?sv) = maskBefore st vol seg \<and>
          (\<forall>b < length st. arrayAt ?st1 b = arrayAt st b)"
    using None by (simp add: handleDraw_def alloc_def Let_def maskBefore_def arrayAt_def nth_append)
  then show ?thesis by blast
next
  case (Some s)
  have "handleDraw st (Some vol) seg x y z val r =
            (paintLoops (dimensions vol) x y z val r (data s) st, Some s) \<and>
          data s = (case seg of Some s \<Rightarrow> data s | None \<Rightarrow> length st) \<and>
          data s < length st \<and>
          arrayAt st (data s) = maskBefore st vol seg \<and>
          (\<forall>b < length st. arrayAt st b = arrayAt st b)"
    using Some assms(2) by (simp add: handleDraw_def Let_def maskBefore_def)
  then show ?thesis by blast
qed

text \<open>
  Claim C6. With a volume loaded, \<^verbatim>\<open>handleDraw\<close> paints on the mask of the segmentation,
  or on a new zero-filled mask when there is none. Afterwards the mask has the same
  length, and the element at index \<open>i\<close> is the given value when \<open>i\<close> is the flat index
  of a voxel inside the volume whose offset from the centre has every component in
  \<open>[-r, r]\<close> and satisfies \<open>dx\<^sup>2 + dy\<^sup>2 + dz\<^sup>2 \<le> r\<^sup>2\<close>, and is unchanged
  otherwise. When the mask has one element per voxel this reads voxel by voxel: a voxel
  inside the volume gets the value if it is in the brush and keeps its label if not.
  When the brush lies inside the volume, the number of elements it sets is the number of
  integer offsets of the ball, which is 7 for \<open>r = 1\<close>.
\<close>

theorem handleDraw_paints_ball:
  assumes "data vol < length st"
    and "case seg of None \<Rightarrow> True | Some s \<Rightarrow> data s < length st"
  shows "\<exists>sv st'. handleDraw st (Some vol) seg x y z val r = (st', Some sv) \<and>
           data sv = (case seg of Some s \<Rightarrow> data s | None \<Rightarrow> length st) \<and>
           data sv < length st' \<and>
           length (arrayAt st' (data sv)) = length (maskBefore st vol seg) \<and>
           (\<forall>i < length (maskBefore st vol seg).
              arrayAt st' (data sv) ! i =
                (if i \<in> voxelIndex (dimensions vol) ` {p. inVolume (dimensions vol) p \<and> inBrush x y z r p}
                 then val else maskBefore st vol seg ! i)) \<and>
           (length (maskBefore st vol seg) = volumeSize (dimensions vol) \<longrightarrow>
              (\<forall>p. inVolume (dimensions vol) p \<longrightarrow>
                 arrayAt st' (data sv) ! voxelIndex (dimensions vol) p =
                   (if inBrush x y z r p then val
                    else maskBefore st vol seg ! voxelIndex (dimensions vol) p))) \<and>
           (interior (dimensions vol) x y z r \<longrightarrow>
              card (voxelIndex (dimensions vol) ` {p. inVolume (dimensions vol) p \<and> inBrush x y z r p}) =
              card {(dx, dy, dz). - r \<le> dx \<and> dx \<le> r \<and> - r \<le> dy \<and> dy \<le> r \<and> - r \<le> dz \<and> dz \<le> r \<and>
                                  dx * dx + dy * dy + dz * dz \<le> r * r}) \<and>
           card {(dx, dy, dz). - 1 \<le> dx \<and> dx \<le> 1 \<and> - 1 \<le> dy \<and> dy \<le> 1 \<and> - 1 \<le> dz \<and> dz \<le> 1 \<and>
                               dx * dx + dy * dy + dz * dz \<le> (1::int) * 1} = 7"
proof -
  let ?dims = "dimensions vol"
  let ?m = "maskBefore st vol seg"
  let ?B = "{p. inVolume ?dims p \<and> inBrush x y z r p}"
  from handleDraw_result [OF assms, of x y z val r] obtain sv st1 where
    hd: "handleDraw st (Some vol) seg x y z val r = (paintLoops ?dims x y z val r (data sv) st1, Some sv)"
    and ad: "data sv = (case seg of Some s \<Rightarrow> data s | None \<Rightarrow> length st)"
    and lt: "data sv < length st1"
    and m: "arrayAt st1 (data sv) = ?m"
    by blast
  define st' where "st' = paintLoops ?dims x y z val r (data sv) st1"
  note pa = paintLoops_array [OF lt]
  have B: "set (brushVoxels ?dims x y z r) = ?B"
    by (auto simp: set_brushVoxels)
  have lt': "data sv < length st'" using pa(1) lt by (simp add: st'_def)
  have len: "length (arrayAt st' (data sv)) = length ?m"
    using pa(2) by (simp add: st'_def m)
  have nth: "\<forall>i < length ?m. arrayAt st' (data sv) ! i =
      (if i \<in> voxelIndex ?dims ` ?B then val else ?m ! i)"
    using pa(3) by (simp add: st'_def m B)
  have vox: "length ?m = volumeSize ?dims \<longrightarrow>
      (\<forall>p. inVolume ?dims p \<longrightarrow>
         arrayAt st' (data sv) ! voxelIndex ?dims p =
           (if inBrush x y z r p then val else ?m ! voxelIndex ?dims p))"
  proof (intro impI allI)
    fix p assume sz: "length ?m = volumeSize ?dims" and p: "inVolume ?dims p"
    obtain X Y Z where dims: "?dims = (X, Y, Z)" by (cases ?dims)
    have "voxelIndex ?dims p < length ?m"
      using voxelIndex_less [of X Y Z p] p sz by (simp add: dims volumeSize_def)
    then have e: "arrayAt st' (data sv) ! voxelIndex ?dims p =
        (if voxelIndex ?dims p \<in> voxelIndex ?dims ` ?B then val else ?m ! voxelIndex ?dims p)"
      using nth by blast
    have "voxelIndex ?dims p \<in> voxelIndex ?dims ` ?B \<longleftrightarrow> inBrush x y z r p"
    proof
      assume "voxelIndex ?dims p \<in> voxelIndex ?dims ` ?B"
      then obtain q where q: "inVolume ?dims q" "inBrush x y z r q" "voxelIndex ?dims p = voxelIndex ?dims q"
        by blast
      from voxelIndex_inj [OF p q(1) q(3)] q(2) show "inBrush x y z r p" by simp
    next
      assume "inBrush x y z r p"
      then show "voxelIndex ?dims p \<in> voxelIndex ?dims ` ?B" using p by blast
    qed
    then show "arrayAt st' (data sv) ! voxelIndex ?dims p =
           (if inBrush x y z r p then val else ?m ! voxelIndex ?dims p)"
      using e by simp
  qed
  have cnt: "interior ?dims x y z r \<longrightarrow>
      card (voxelIndex ?dims ` ?B) =
      card {(dx, dy, dz). - r \<le> dx \<and> dx \<le> r \<and> - r \<le> dy \<and> dy \<le> r \<and> - r \<le> dz \<and> dz \<le> r \<and>
                          dx * dx + dy * dy + dz * dz \<le> r * r}"
    using brush_count [of ?dims x y z r] by (simp add: set_ballOffsets)
  have seven: "card {(dx, dy, dz). - 1 \<le> dx \<and> dx \<le> 1 \<and> - 1 \<le> dy \<and> dy \<le> 1 \<and> - 1 \<le> dz \<and> dz \<le> 1 \<and>
                               dx * dx + dy * dy + dz * dz \<le> (1::int) * 1} = 7"
    using ball_count_1 unfolding set_ballOffsets .
  from hd ad lt' len nth vox cnt seven show ?thesis
    unfolding st'_def [symmetric] by blast
qed

text \<open>
  The theorem on a volume of 3 by 3 by 3 voxels without a segmentation, with the brush
  of radius 1 and value 1 at the centre voxel \<open>(1, 1, 1)\<close>: the new mask is the array at
  address 1, the centre (index 13) is painted, the corner (index 0) is not.
\<close>

theorem handleDraw_paints_ball_witness:
  "data exVolRef < length exStore \<and>
   length (maskBefore exStore exVolRef None) = volumeSize (dimensions exVolRef) \<and>
   interior (dimensions exVolRef) 1 1 1 1 \<and>
   arrayAt (fst (handleDraw exStore (Some exVolRef) None 1 1 1 1 1)) 1 ! 13 = 1 \<and>
   arrayAt (fst (handleDraw exStore (Some exVolRef) None 1 1 1 1 1)) 1 ! 0 = 0 \<and>
   card (voxelIndex (3, 3, 3) ` {p. inVolume (3, 3, 3) p \<and> inBrush 1 1 1 1 p}) = 7"
proof -
  have h1: "data exVolRef < length exStore" by (simp add: exVolRef_def exStore_def)
  have h2: "case (None :: (addr, real) VolumeData option) of None \<Rightarrow> True | Some s \<Rightarrow> data s < length exStore"
    by simp
  have d: "dimensions exVolRef = (3, 3, 3)" by (simp add: exVolRef_def)
  have mb: "maskBefore exStore exVolRef None = replicate 27 0"
    by (simp add: maskBefore_def arrayAt_def exStore_def exVolRef_def)
  have sz: "length (maskBefore exStore exVolRef None) = volumeSize (dimensions exVolRef)"
    by (simp add: mb d volumeSize_def)
  have int: "interior (dimensions exVolRef) 1 1 1 1" by (simp add: d interior_def)
  from handleDraw_paints_ball [OF h1 h2, of 1 1 1 1 1] obtain sv st' where
    hd: "handleDraw exStore (Some exVolRef) None 1 1 1 1 1 = (st', Some sv)"
    and ad: "data sv = length exStore"
    and vox: "length (maskBefore exStore exVolRef None) = volumeSize (dimensions exVolRef) \<longrightarrow>
              (\<forall>p. inVolume (dimensions exVolRef) p \<longrightarrow>
                 arrayAt st' (data sv) ! voxelIndex (dimensions exVolRef) p =
                   (if inBrush 1 1 1 1 p then 1
                    else maskBefore exStore exVolRef None ! voxelIndex (dimensions exVolRef) p))"
    and cnt: "interior (dimensions exVolRef) 1 1 1 1 \<longrightarrow>
              card (voxelIndex (dimensions exVolRef) ` {p. inVolume (dimensions exVolRef) p \<and> inBrush 1 1 1 1 p}) =
              card {(dx, dy, dz). - 1 \<le> dx \<and> dx \<le> 1 \<and> - 1 \<le> dy \<and> dy \<le> 1 \<and> - 1 \<le> dz \<and> dz \<le> 1 \<and>
                                  dx * dx + dy * dy + dz * dz \<le> (1::int) * 1}"
    and seven: "card {(dx, dy, dz). - 1 \<le> dx \<and> dx \<le> 1 \<and> - 1 \<le> dy \<and> dy \<le> 1 \<and> - 1 \<le> dz \<and> dz \<le> 1 \<and>
                               dx * dx + dy * dy + dz * dz \<le> (1::int) * 1} = 7"
    by auto
  have a1: "data sv = 1" using ad by (simp add: exStore_def)
  have fst: "fst (handleDraw exStore (Some exVolRef) None 1 1 1 1 1) = st'" by (simp add: hd)
  from vox sz have v: "\<forall>p. inVolume (dimensions exVolRef) p \<longrightarrow>
                 arrayAt st' (data sv) ! voxelIndex (dimensions exVolRef) p =
                   (if inBrush 1 1 1 1 p then 1
                    else maskBefore exStore exVolRef None ! voxelIndex (dimensions exVolRef) p)"
    by blast
  have c: "arrayAt st' 1 ! 13 = 1"
    using v [rule_format, of "(1, 1, 1)"]
    by (simp add: d a1 mb inVolume_def inBrush_def voxelIndex_def)
  have o: "arrayAt st' 1 ! 0 = 0"
    using v [rule_format, of "(0, 0, 0)"]
    by (simp add: d a1 mb inVolume_def inBrush_def voxelIndex_def)
  have n: "card (voxelIndex (3, 3, 3) ` {p. inVolume (3, 3, 3) p \<and> inBrush 1 1 1 1 p}) = 7"
    using cnt int seven by (simp add: d)
  show ?thesis using h1 sz int c o n by (simp add: fst)
qed

section \<open>Properties of the segmentation engine\<close>

lemma upt_split: "i \<le> j \<Longrightarrow> j \<le> k \<Longrightarrow> [i..<k] = [i..<j] @ [j..<k]"
  using upt_add_eq_append [of i j "k - j"] by simp

lemma chunkLoop_fold: "chunkLoop len i body s = fold body [i..<len] s"
proof (induction len i body s rule: chunkLoop.induct)
  case (1 len i body s)
  show ?case
  proof (cases "i < len")
    case True
    have split: "[i..<len] = [i..<min (i + 500000) len] @ [min (i + 500000) len..<len]"
      using True by (intro upt_split) simp_all
    have rest: "fold body [min (i + 500000) len..<len] s' = fold body [i + 500000..<len] s'" for s'
      by (cases "i + 500000 \<le> len") (simp_all add: min_def)
    show ?thesis
      using True "1.IH" [OF True]
      by (subst chunkLoop.simps, subst split) (simp add: rest)
  next
    case False
    then show ?thesis by (subst chunkLoop.simps) simp
  qed
qed

lemma writeArr_last: "writeArr (length st) j v (st @ [xs]) = st @ [xs[j := v]]"
  by (simp add: writeArr_def)

lemma arrayAt_old: "a < length st \<Longrightarrow> arrayAt (st @ [xs]) a = arrayAt st a"
  by (simp add: arrayAt_def nth_append)

lemma segVoxel_fresh:
  assumes "dataA < length st" and "xs ! j = 0"
  shows "segVoxel m threshold upper dataA (length st) j (st @ [xs]) =
           st @ [xs[j := segLabel m threshold upper (arrayAt st dataA ! j)]]"
proof -
  have keep: "st @ [xs] = st @ [xs[j := 0]]"
    using assms(2) by (metis list_update_id)
  show ?thesis
    using keep
    by (cases m) (simp_all add: segVoxel_def segLabel_def Let_def arrayAt_old [OF assms(1)] writeArr_last)
qed

lemma label_prefix_step:
  assumes "k < length dat"
  shows "(map f (take k dat) @ replicate (length dat - k) (0::real))[k := f (dat ! k)] =
         map f (take (Suc k) dat) @ replicate (length dat - Suc k) 0"
proof -
  have r: "replicate (length dat - k) (0::real) = 0 # replicate (length dat - Suc k) 0"
    using assms by (simp add: Suc_diff_Suc replicate_Suc [symmetric] del: replicate_Suc)
  have l: "length (map f (take k dat)) = k" using assms by simp
  have "(map f (take k dat) @ 0 # replicate (length dat - Suc k) 0)[k := f (dat ! k)] =
        map f (take k dat) @ f (dat ! k) # replicate (length dat - Suc k) 0"
    using list_update_length [of "map f (take k dat)" 0 "replicate (length dat - Suc k) 0" "f (dat ! k)"]
    by (simp only: l)
  then show ?thesis
    using assms by (simp add: r take_Suc_conv_app_nth)
qed

lemma segVoxel_fold:
  assumes "dataA < length st" and "dat = arrayAt st dataA" and "k \<le> length dat"
  shows "fold (segVoxel m threshold upper dataA (length st)) [0..<k] (st @ [replicate (length dat) 0]) =
           st @ [map (segLabel m threshold upper) (take k dat) @ replicate (length dat - k) 0]"
  using assms(3)
proof (induction k)
  case 0
  then show ?case by simp
next
  case (Suc k)
  then have k: "k < length dat" by simp
  let ?xs = "map (segLabel m threshold upper) (take k dat) @ replicate (length dat - k) 0"
  have z: "?xs ! k = 0" using k by (simp add: nth_append)
  have "fold (segVoxel m threshold upper dataA (length st)) [0..<Suc k] (st @ [replicate (length dat) 0]) =
        segVoxel m threshold upper dataA (length st) k (st @ [?xs])"
    using Suc.IH k by simp
  also have "\<dots> = st @ [?xs[k := segLabel m threshold upper (arrayAt st dataA ! k)]]"
    using segVoxel_fresh [OF assms(1) z] .
  also have "?xs[k := segLabel m threshold upper (arrayAt st dataA ! k)] =
        map (segLabel m threshold upper) (take (Suc k) dat) @ replicate (length dat - Suc k) 0"
    using label_prefix_step [OF k, of "segLabel m threshold upper"] by (simp add: assms(2))
  finally show ?case .
qed

lemma runSegmentation_result:
  assumes "data vol < length st" and "m \<noteq> ManualDraw"
  shows "runSegmentation st (Some vol) m manualThreshold manualUpper =
           (st @ [map (segLabel m
                    (fst (segThresholds m (arrayAt st (data vol)) (vmin vol) (vmax vol) manualThreshold manualUpper))
                    (snd (segThresholds m (arrayAt st (data vol)) (vmin vol) (vmax vol) manualThreshold manualUpper)))
                  (arrayAt st (data vol))],
            Some \<lparr> header = (header vol)(''datatypeCode'' \<mapsto> HNum 2),
                   data = length st,
                   dimensions = dimensions vol,
                   vmin = 0,
                   vmax = 255 \<rparr>)"
  using assms segVoxel_fold [OF assms(1) refl order_refl]
  by (simp add: runSegmentation_def alloc_def Let_def chunkLoop_fold split: prod.splits)

lemma segLabel_range: "segLabel m threshold upper val \<in> {0, 1, 2, 3}"
  by (cases m) (simp_all add: segLabel_def)

text \<open>
  Claim C7, as amended. A segmentation run of a method other than manual drawing returns
  a mask with one label per sample of the volume and the fixed range \<open>min = 0\<close>,
  \<open>max = 255\<close>. Every label in the data of the mask is one of 0, 1, 2, 3, so the
  reported range bounds the data.
\<close>

theorem runSegmentation_fixed_range:
  assumes "data vol < length st" and "m \<noteq> ManualDraw"
  shows "\<exists>st' sv. runSegmentation st (Some vol) m manualThreshold manualUpper = (st', Some sv) \<and>
           vmin sv = 0 \<and> vmax sv = 255 \<and>
           length (arrayAt st' (data sv)) = length (arrayAt st (data vol)) \<and>
           (\<forall>v \<in> set (arrayAt st' (data sv)). v \<in> {0, 1, 2, 3} \<and> vmin sv \<le> v \<and> v \<le> vmax sv)"
proof -
  let ?thr = "segThresholds m (arrayAt st (data vol)) (vmin vol) (vmax vol) manualThreshold manualUpper"
  define mask where "mask = map (segLabel m (fst ?thr) (snd ?thr)) (arrayAt st (data vol))"
  define sv :: "(addr, real) VolumeData" where
    "sv = \<lparr> header = (header vol)(''datatypeCode'' \<mapsto> HNum 2), data = length st,
             dimensions = dimensions vol, vmin = 0, vmax = 255 \<rparr>"
  define st' where "st' = st @ [mask]"
  have r: "runSegmentation st (Some vol) m manualThreshold manualUpper = (st', Some sv)"
    using runSegmentation_result [OF assms] by (simp add: mask_def sv_def st'_def)
  have mm: "vmin sv = 0" "vmax sv = 255" by (simp_all add: sv_def)
  have a: "arrayAt st' (data sv) = mask" by (simp add: arrayAt_def sv_def st'_def)
  have lab: "v \<in> {0, 1, 2, 3}" if "v \<in> set mask" for v
    using that segLabel_range by (auto simp: mask_def)
  have bnd: "0 \<le> v \<and> v \<le> 255" if "v \<in> set mask" for v
    using lab [OF that] by auto
  have b: "\<forall>v \<in> set (arrayAt st' (data sv)). v \<in> {0, 1, 2, 3} \<and> vmin sv \<le> v \<and> v \<le> vmax sv"
    unfolding a mm using lab bnd by blast
  have c: "length (arrayAt st' (data sv)) = length (arrayAt st (data vol))"
    unfolding a by (simp add: mask_def)
  from r mm c b show ?thesis by blast
qed

lemma exVol2_run:
  "runSegmentation exStore2 (Some exVol2) Binary 1 0 =
     ([[0, 1], [0, 1]],
      Some \<lparr> header = [''datatypeCode'' \<mapsto> HNum 2], data = 1, dimensions = (2, 1, 1),
             vmin = 0, vmax = 255 \<rparr>)"
proof -
  have "data exVol2 < length exStore2" by (simp add: exVol2_def exStore2_def)
  from runSegmentation_result [OF this, of Binary 1 0]
  show ?thesis
    by (simp add: exVol2_def exStore2_def arrayAt_def segThresholds_def segLabel_def geT_def jsGe_def)
qed

text \<open>The theorem on the volume \<open>[0, 1]\<close> with the binary threshold 1.\<close>

theorem runSegmentation_fixed_range_witness:
  "data exVol2 < length exStore2 \<and> Binary \<noteq> ManualDraw \<and>
   map_option vmin (snd (runSegmentation exStore2 (Some exVol2) Binary 1 0)) = Some 0 \<and>
   map_option vmax (snd (runSegmentation exStore2 (Some exVol2) Binary 1 0)) = Some 255 \<and>
   set (arrayAt (fst (runSegmentation exStore2 (Some exVol2) Binary 1 0)) 1) \<subseteq> {0, 1, 2, 3}"
proof -
  have h1: "data exVol2 < length exStore2" by (simp add: exVol2_def exStore2_def)
  have h2: "Binary \<noteq> ManualDraw" by simp
  from runSegmentation_fixed_range [OF h1 h2, of 1 0] obtain st' sv where
    r: "runSegmentation exStore2 (Some exVol2) Binary 1 0 = (st', Some sv)"
    and mm: "vmin sv = 0" "vmax sv = 255"
    and lab: "\<forall>v \<in> set (arrayAt st' (data sv)). v \<in> {0, 1, 2, 3} \<and> vmin sv \<le> v \<and> v \<le> vmax sv"
    by blast
  have "data sv = 1" using r by (auto simp: exVol2_run)
  with lab have "set (arrayAt st' 1) \<subseteq> {0, 1, 2, 3}" by auto
  with h1 h2 r mm show ?thesis by simp
qed

text \<open>
  The claim as first stated asks for the reported maximum to be the greatest value in
  the data of the mask. On the volume \<open>[0, 1]\<close> with the binary threshold 1 the mask is
  \<open>[0, 1]\<close>, whose greatest value is 1, and the reported maximum is 255.
\<close>

theorem runSegmentation_max_counterexample:
  "arrayAt (fst (runSegmentation exStore2 (Some exVol2) Binary 1 0)) 1 = [0, 1] \<and>
   map_option vmax (snd (runSegmentation exStore2 (Some exVol2) Binary 1 0)) = Some 255 \<and>
   Max (set [0, 1 :: real]) = 1"
  by (simp add: exVol2_run arrayAt_def)

section \<open>Properties of global histogram equalization\<close>

lemma setArr_last: "setArr (length st) ys (st @ [xs]) = st @ [ys]"
  by (simp add: setArr_def)

lemma voxel_prefix_step:
  assumes "k < length dat" and "length xs = length dat"
  shows "(map f (take k dat) @ drop k xs)[k := f (dat ! k)] = map f (take (Suc k) dat) @ drop (Suc k) xs"
proof -
  have d: "drop k xs = xs ! k # drop (Suc k) xs"
    using assms by (simp add: Cons_nth_drop_Suc)
  have l: "length (map f (take k dat)) = k" using assms by simp
  have "(map f (take k dat) @ xs ! k # drop (Suc k) xs)[k := f (dat ! k)] =
        map f (take k dat) @ f (dat ! k) # drop (Suc k) xs"
    using list_update_length [of "map f (take k dat)" "xs ! k" "drop (Suc k) xs" "f (dat ! k)"]
    by (simp only: l)
  then show ?thesis
    using assms by (simp add: d take_Suc_conv_app_nth)
qed

lemma voxelwise_fold:
  assumes "dataA < length st" and "dat = arrayAt st dataA" and "length xs = length dat"
    and body: "\<And>j s. body j s = writeArr (length st) j (f (arrayAt s dataA ! j)) s"
    and "k \<le> length dat"
  shows "fold body [0..<k] (st @ [xs]) = st @ [map f (take k dat) @ drop k xs]"
  using assms(5)
proof (induction k)
  case 0
  then show ?case by simp
next
  case (Suc k)
  then have k: "k < length dat" by simp
  let ?ys = "map f (take k dat) @ drop k xs"
  have "fold body [0..<Suc k] (st @ [xs]) = body k (st @ [?ys])"
    using Suc.IH k by simp
  also have "\<dots> = st @ [?ys[k := f (dat ! k)]]"
    by (simp add: body arrayAt_old [OF assms(1)] writeArr_last assms(2))
  also have "?ys[k := f (dat ! k)] = map f (take (Suc k) dat) @ drop (Suc k) xs"
    using voxel_prefix_step [OF k assms(3)] .
  finally show ?case .
qed

lemma voxelwise_chunkLoop:
  assumes "dataA < length st" and "dat = arrayAt st dataA" and "length xs = length dat"
    and body: "\<And>j s. body j s = writeArr (length st) j (f (arrayAt s dataA ! j)) s"
  shows "chunkLoop (length dat) 0 body (st @ [xs]) = st @ [map f dat]"
  using voxelwise_fold [OF assms order_refl] assms(3) by (simp add: chunkLoop_fold)

lemma cdfLoop_prefix:
  assumes "length h = 256" and "k \<le> 256"
  shows "fold (\<lambda>i (sm, cdf). (sm + h ! i, cdf[i := sm + h ! i])) [0..<k] (0, replicate 256 0) =
         (sum_list (take k h), map (\<lambda>i. if i < k then sum_list (take (Suc i) h) else 0) [0..<256])"
  using assms(2)
proof (induction k)
  case 0
  show ?case by (simp add: map_replicate_trivial)
next
  case (Suc k)
  then have k: "k < 256" by simp
  have t: "sum_list (take (Suc k) h) = sum_list (take k h) + h ! k"
    using k assms(1) by (simp add: take_Suc_conv_app_nth)
  have "(map (\<lambda>i. if i < k then sum_list (take (Suc i) h) else 0) [0..<256])[k := sum_list (take k h) + h ! k] =
        map (\<lambda>i. if i < Suc k then sum_list (take (Suc i) h) else 0) [0..<256]"
    using k by (intro nth_equalityI) (auto simp: nth_list_update t less_Suc_eq)
  then show ?case using Suc.IH k by (simp add: t)
qed

lemma sum_list_take_le:
  fixes h :: "nat list"
  shows "sum_list (take n h) \<le> sum_list h"
proof -
  have "sum_list h = sum_list (take n h) + sum_list (drop n h)"
    by (metis append_take_drop_id sum_list_append)
  then show ?thesis by simp
qed

lemma cdfLoop_bounds:
  assumes "length h = 256"
  shows "fst (cdfLoop h) = sum_list h" and "b < 256 \<Longrightarrow> snd (cdfLoop h) ! b \<le> sum_list h"
    and "b < 256 \<Longrightarrow> snd (cdfLoop h) ! b = sum_list (take (Suc b) h)"
  using cdfLoop_prefix [OF assms, of 256] assms
  by (simp_all add: cdfLoop_def sum_list_take_le)

lemma clampBin_less: "clampBin b < 256"
  by (simp add: clampBin_def)

lemma runProcessing_start:
  assumes "data vol < length st"
  shows "runProcessing st (Some vol) procMethod param1 param2 referenceVolume =
     (let st2 = st @ [arrayAt st (data vol)]
      in if procMethod = HistMatch \<and> referenceVolume = None then (st2, None)
         else
           (let reference =
                  (case referenceVolume of
                     Some r \<Rightarrow> (arrayAt st2 (data r), vmin r, vmax r)
                   | None \<Rightarrow> ([], 0, 0));
                st3 = runStage procMethod param1 param2 vol reference (length st) st2;
                (newMin, newMax) = rangeLoop (arrayAt st3 (length st)) 0 (PosInf, NegInf)
            in (st3, Some \<lparr> header = header vol,
                            data = length st,
                            dimensions = dimensions vol,
                            vmin = newMin,
                            vmax = newMax \<rparr>)))"
  using assms
  by (cases referenceVolume)
     (simp_all add: runProcessing_def alloc_def Let_def setArr_last arrayAt_old)


lemma round64_one [simp]: "round64 1 = 1"
  using round64_int [of 1] by simp











lemma histEqStage_result:
  assumes "data vol < length st"
  shows "histEqStage mn mx (data vol) (length st) (st @ [arrayAt st (data vol)]) =
           st @ [map (\<lambda>v. sampleOf (histEqOut (num mn) (jsOrOne (jsSub (num mx) (num mn)))
                            (snd (cdfLoop (fst (getHistogram (nums (arrayAt st (data vol))) (num mn) (num mx)))))
                            (fst (cdfLoop (fst (getHistogram (nums (arrayAt st (data vol))) (num mn) (num mx)))))
                            (num v)))
                  (arrayAt st (data vol))]"
proof -
  let ?dat = "arrayAt st (data vol)"
  let ?cdf = "snd (cdfLoop (fst (getHistogram (nums ?dat) (num mn) (num mx))))"
  let ?tot = "fst (cdfLoop (fst (getHistogram (nums ?dat) (num mn) (num mx))))"
  let ?rng = "jsOrOne (jsSub (num mx) (num mn))"
  let ?f = "\<lambda>v. sampleOf (histEqOut (num mn) ?rng ?cdf ?tot (num v))"
  have body: "histEqVoxel (num mn) ?rng ?cdf ?tot (data vol) (length st) j s =
      writeArr (length st) j (?f (arrayAt s (data vol) ! j)) s" for j s
    by (simp add: histEqVoxel_def)
  have "chunkLoop (length ?dat) 0 (histEqVoxel (num mn) ?rng ?cdf ?tot (data vol) (length st))
          (st @ [?dat]) = st @ [map ?f ?dat]"
    using voxelwise_chunkLoop [OF assms refl refl body] .
  then show ?thesis
    by (simp add: histEqStage_def Let_def arrayAt_old [OF assms] case_prod_beta)
qed

lemma runProcessing_histEq:
  assumes "data vol < length st"
  shows "\<exists>newMin newMax.
           runProcessing st (Some vol) HistEq param1 param2 referenceVolume =
             (st @ [map (\<lambda>v. sampleOf (histEqOut (num (vmin vol)) (jsOrOne (jsSub (num (vmax vol)) (num (vmin vol))))
                            (snd (cdfLoop (fst (getHistogram (nums (arrayAt st (data vol))) (num (vmin vol)) (num (vmax vol))))))
                            (fst (cdfLoop (fst (getHistogram (nums (arrayAt st (data vol))) (num (vmin vol)) (num (vmax vol))))))
                            (num v)))
                     (arrayAt st (data vol))],
              Some \<lparr> header = header vol, data = length st, dimensions = dimensions vol,
                     vmin = newMin, vmax = newMax \<rparr>)"
  by (simp add: runProcessing_start [OF assms] runStage_def Let_def histEqStage_result [OF assms]
        case_prod_beta)













lemma exTenth_rounding:
  "exTenth \<noteq> 0" "0 < exTenth" "double exTenth = Fin exTenth" "double (256 / exTenth) = Fin 2560"
  "double (exTenth * 2560) = Fin 256" "fround exTenth = Fin (13421773 / 2 ^ 27)"
  by (simp_all add: exTenth_def fp_eval)

lemma exHist6: "fst (getHistogram (nums [0, exTenth]) (num 0) (num exTenth)) = (replicate 256 0)[0 := 1]"
  by (simp add: getHistogram_def histStride_def histLoop.simps binOf_def inBins_def binIndex_def
        jsGe_def jsOrOne_def nums_def Let_def numeral_2_eq_2 exTenth_rounding)

lemma exHist6_cdf:
  "fst (cdfLoop (fst (getHistogram (nums [0, exTenth]) (num 0) (num exTenth)))) = 1"
  "snd (cdfLoop (fst (getHistogram (nums [0, exTenth]) (num 0) (num exTenth)))) ! 255 = 1"
proof -
  have len: "length (fst (getHistogram (nums [0, exTenth]) (num 0) (num exTenth))) = 256"
    by (rule getHistogram_length)
  note cb = cdfLoop_bounds [OF len]
  have s: "sum_list ((replicate 256 0)[0 := Suc 0]) = Suc 0" by (simp add: sum_list_update)
  have t: "take (Suc 255) ((replicate 256 0)[0 := Suc 0]) = (replicate 256 0)[0 := Suc 0]"
    by simp
  show "fst (cdfLoop (fst (getHistogram (nums [0, exTenth]) (num 0) (num exTenth)))) = 1"
    using cb(1) by (simp add: exHist6 s)
  show "snd (cdfLoop (fst (getHistogram (nums [0, exTenth]) (num 0) (num exTenth)))) ! 255 = 1"
    using cb(3) [of 255] by (simp add: exHist6 s t)
qed

lemma exHist6_value:
  "sampleOf (histEqOut (num 0) (num exTenth)
     (snd (cdfLoop (fst (getHistogram (nums [0, exTenth]) (num 0) (num exTenth)))))
     (fst (cdfLoop (fst (getHistogram (nums [0, exTenth]) (num 0) (num exTenth)))))
     (num exTenth)) = 13421773 / 2 ^ 27"
  by (simp add: histEqOut_def histEqBin_def histEqNorm_def clampBin_def exHist6_cdf exTenth_rounding)

text \<open>
  The rounding of the store can put an output sample above the maximum. On the volume
  \<open>[0, 1/10]\<close> of binary64 samples with its own range, the sample \<open>1/10\<close> has the
  fraction 1; its output is the binary32 number nearest to \<open>1/10\<close>, which is greater.
\<close>

lemma runProcessing_histEq_above_max:
  "0 < histEqTotal (arrayAt exStore6 (data exVol6)) (vmin exVol6) (vmax exVol6) \<and>
   arrayAt (fst (runProcessing exStore6 (Some exVol6) HistEq 1 (1/2) None)) 1 ! 1 = 13421773 / 2 ^ 27 \<and>
   vmax exVol6 < 13421773 / 2 ^ 27"
proof -
  have h: "data exVol6 < length exStore6" by (simp add: exVol6_def exStore6_def)
  from runProcessing_histEq [OF h, of 1 "1/2" None]
  have "arrayAt (fst (runProcessing exStore6 (Some exVol6) HistEq 1 (1/2) None)) 1 ! 1 = 13421773 / 2 ^ 27"
    by (auto simp: exStore6_def exVol6_def arrayAt_def jsOrOne_def exTenth_rounding exHist6_value)
  moreover have "histEqTotal [0, exTenth] 0 exTenth = 1"
    by (simp add: histEqTotal_def exHist6 sum_list_update)
  moreover have "exTenth < 13421773 / 2 ^ 27" by (simp add: exTenth_def)
  ultimately show ?thesis by (simp add: exStore6_def exVol6_def arrayAt_def)
qed

section \<open>The arrays a stage writes\<close>

lemma keepsI:
  assumes "\<And>st. n \<le> length st \<Longrightarrow> length st \<le> length (f st) \<and> (\<forall>a < n. f st ! a = st ! a)"
  shows "keeps n f"
  using assms by (simp add: keeps_def)

lemma keepsD:
  assumes "keeps n f" and "n \<le> length st"
  shows "length st \<le> length (f st)" and "a < n \<Longrightarrow> f st ! a = st ! a"
  using assms by (simp_all add: keeps_def)

lemma keeps_pointwise:
  assumes "\<And>st. n \<le> length st \<Longrightarrow> \<exists>g. keeps n g \<and> f st = g st"
  shows "keeps n f"
proof (rule keepsI)
  fix st :: store assume n: "n \<le> length st"
  from assms [OF n] obtain g where g: "keeps n g" "f st = g st" by blast
  show "length st \<le> length (f st) \<and> (\<forall>a < n. f st ! a = st ! a)"
    using keepsD [OF g(1) n] g(2) by simp
qed

lemma keeps_id: "keeps n (\<lambda>st. st)"
  by (simp add: keeps_def)

lemma keeps_writeArr: "n \<le> a \<Longrightarrow> keeps n (writeArr a i v)"
  by (simp add: keeps_def writeArr_def)

lemma keeps_setArr: "n \<le> a \<Longrightarrow> keeps n (setArr a xs)"
  by (simp add: keeps_def setArr_def)

lemma keeps_comp:
  assumes "keeps n f" and "keeps n g"
  shows "keeps n (\<lambda>st. g (f st))"
proof (rule keepsI)
  fix st :: store assume n: "n \<le> length st"
  note f = keepsD [OF assms(1) n]
  have n': "n \<le> length (f st)" using f(1) n by simp
  note g = keepsD [OF assms(2) n']
  show "length st \<le> length (g (f st)) \<and> (\<forall>a < n. g (f st) ! a = st ! a)"
    using f g by simp
qed

lemma keeps_fold:
  assumes "\<And>x. x \<in> set xs \<Longrightarrow> keeps n (f x)"
  shows "keeps n (fold f xs)"
  using assms
proof (induction xs)
  case Nil
  show ?case by (simp add: keeps_def)
next
  case (Cons x xs)
  have a: "keeps n (f x)" using Cons.prems by simp
  have b: "keeps n (fold f xs)" using Cons by simp
  have "fold f (x # xs) = (\<lambda>st. fold f xs (f x st))" by (simp add: fun_eq_iff)
  then show ?case using keeps_comp [OF a b] by simp
qed

lemma keeps_chunkLoop:
  assumes "\<And>j. keeps n (body j)"
  shows "keeps n (chunkLoop len i body)"
proof -
  have "chunkLoop len i body = fold body [i..<len]"
    by (simp add: fun_eq_iff chunkLoop_fold)
  then show ?thesis using keeps_fold [of "[i..<len]" n body] assms by simp
qed

lemma keeps_alloc:
  assumes "\<And>b. n \<le> b \<Longrightarrow> keeps n (rest b)"
  shows "keeps n (\<lambda>st. rest (fst (alloc len st)) (snd (alloc len st)))"
proof (rule keepsI)
  fix st :: store assume n: "n \<le> length st"
  have k: "keeps n (rest (length st))" using assms n by simp
  have n': "n \<le> length (st @ [replicate len 0])" using n by simp
  note r = keepsD [OF k n']
  show "length st \<le> length (rest (fst (alloc len st)) (snd (alloc len st))) \<and>
        (\<forall>a < n. rest (fst (alloc len st)) (snd (alloc len st)) ! a = st ! a)"
    using r n by (simp add: alloc_def nth_append)
qed

lemma kept_refl: "n \<le> length st \<Longrightarrow> kept n st st"
  by (simp add: kept_def)

lemma kept_step: "keeps n f \<Longrightarrow> kept n st0 st \<Longrightarrow> kept n st0 (f st)"
  unfolding kept_def keeps_def by (metis order_trans)

lemma keeps_from_kept:
  assumes "\<And>st. kept n st st \<Longrightarrow> kept n st (f st)"
  shows "keeps n f"
  using assms by (simp add: keeps_def kept_def)

lemma kept_writeArr: "n \<le> a \<Longrightarrow> kept n st0 st \<Longrightarrow> kept n st0 (writeArr a i v st)"
  by (rule kept_step [OF keeps_writeArr])

lemma kept_setArr: "n \<le> a \<Longrightarrow> kept n st0 st \<Longrightarrow> kept n st0 (setArr a xs st)"
  by (rule kept_step [OF keeps_setArr])

lemma kept_fold:
  "(\<And>x. x \<in> set xs \<Longrightarrow> keeps n (f x)) \<Longrightarrow> kept n st0 st \<Longrightarrow> kept n st0 (fold f xs st)"
  by (rule kept_step [OF keeps_fold])

lemma kept_chunkLoop:
  "(\<And>j. keeps n (body j)) \<Longrightarrow> kept n st0 st \<Longrightarrow> kept n st0 (chunkLoop len i body st)"
  by (rule kept_step [OF keeps_chunkLoop])

lemma kept_alloc: "kept n st0 st \<Longrightarrow> kept n st0 (snd (alloc len st)) \<and> n \<le> fst (alloc len st)"
  by (auto simp: kept_def alloc_def nth_append)

text \<open>Every voxel body writes to \<^verbatim>\<open>newData\<close> (or to a scratch array) only.\<close>

lemma keeps_histEqVoxel: "n \<le> newData \<Longrightarrow> keeps n (histEqVoxel mn rng cdf tot dataA newData j)"
  by (simp add: keeps_def histEqVoxel_def writeArr_def Let_def)

lemma keeps_gammaVoxel: "n \<le> newData \<Longrightarrow> keeps n (gammaVoxel mn rng gamma dataA newData j)"
  by (simp add: keeps_def gammaVoxel_def writeArr_def Let_def)

lemma keeps_sigmoidVoxel: "n \<le> newData \<Longrightarrow> keeps n (sigmoidVoxel mn rng gain cutoff dataA newData j)"
  by (simp add: keeps_def sigmoidVoxel_def writeArr_def Let_def)

lemma keeps_blurAt: "n \<le> newData \<Longrightarrow> keeps n (blurAt buf newData off i)"
  by (simp add: keeps_def blurAt_def writeArr_def)

lemma keeps_n4Voxel: "n \<le> newData \<Longrightarrow> keeps n (n4Voxel dims dataA newData i)"
  by (cases dims) (simp add: keeps_def n4Voxel_def writeArr_def Let_def)

lemma keeps_medianAt: "n \<le> newData \<Longrightarrow> keeps n (medianAt width dataA newData offset i)"
  by (simp add: keeps_def medianAt_def writeArr_def Let_def)

lemma keeps_segVoxel: "n \<le> maskA \<Longrightarrow> keeps n (segVoxel m threshold upper dataA maskA j)"
  by (simp add: keeps_def segVoxel_def writeArr_def Let_def)

lemma keeps_write_dep: "n \<le> a \<Longrightarrow> keeps n (\<lambda>st. writeArr a (i st) (v st) st)"
  by (simp add: keeps_def writeArr_def)

lemma keeps_claheSlice:
  assumes "n \<le> newData"
  shows "keeps n (claheSlice clipLimit width height dataA newData z)"
proof (rule keeps_from_kept)
  fix st assume k: "kept n st st"
  show "kept n st (claheSlice clipLimit width height dataA newData z st)"
    unfolding claheSlice_def Let_def case_prod_beta
    by (rule kept_fold [OF keeps_write_dep [OF assms] k])
qed

lemma kept_histEqStage:
  assumes "n \<le> newData" and "kept n st0 st"
  shows "kept n st0 (histEqStage mn mx dataA newData st)"
  unfolding histEqStage_def Let_def case_prod_beta
  by (rule kept_chunkLoop [OF keeps_histEqVoxel [OF assms(1)] assms(2)])

lemma kept_claheStage:
  assumes "n \<le> newData" and "kept n st0 st"
  shows "kept n st0 (claheStage clipLimit dims dataA newData st)"
  unfolding claheStage_def case_prod_beta
  by (rule kept_fold [OF keeps_claheSlice [OF assms(1)] assms(2)])

lemma kept_medianStage:
  assumes "n \<le> newData" and "kept n st0 st"
  shows "kept n st0 (medianStage dims dataA newData st)"
  unfolding medianStage_def case_prod_beta
  by (intro kept_fold keeps_fold keeps_medianAt assms)

lemma kept_histMatchStage:
  assumes "n \<le> newData" and "kept n st0 st"
  shows "kept n st0 (histMatchStage mn mx refData refMin refMax dataA newData st)"
  unfolding histMatchStage_def Let_def
  by (rule kept_fold [OF keeps_write_dep [OF assms(1)] assms(2)])

lemma kept_gaussianStage:
  assumes "n \<le> newData" and "kept n st0 st"
  shows "kept n st0 (gaussianStage dims dataA newData st)"
proof -
  obtain width height depth where dims: "dims = (width, height, depth)" by (cases dims)
  define len where "len = length (arrayAt st dataA)"
  define buf where "buf = fst (alloc len st)"
  define st1 where "st1 = snd (alloc len st)"
  have a: "kept n st0 st1" "n \<le> buf"
    using kept_alloc [OF assms(2), of len] by (simp_all add: st1_def buf_def)
  show ?thesis
    unfolding gaussianStage_def dims Let_def case_prod_beta prod.case
      len_def [symmetric] buf_def [symmetric] st1_def [symmetric]
    by (intro kept_fold kept_setArr keeps_fold keeps_blurAt a assms(1))
qed

lemma kept_unsharpStage:
  assumes "n \<le> newData" and "kept n st0 st"
  shows "kept n st0 (unsharpStage strength dims dataA newData st)"
proof -
  obtain width height depth where dims: "dims = (width, height, depth)" by (cases dims)
  define len where "len = length (arrayAt st dataA)"
  define blurred where "blurred = fst (alloc len st)"
  define st1 where "st1 = snd (alloc len st)"
  define buf where "buf = fst (alloc len st1)"
  define st2 where "st2 = snd (alloc len st1)"
  have a: "kept n st0 st1" "n \<le> blurred"
    using kept_alloc [OF assms(2), of len] by (simp_all add: st1_def blurred_def)
  have b: "kept n st0 st2" "n \<le> buf"
    using kept_alloc [OF a(1), of len] by (simp_all add: st2_def buf_def)
  show ?thesis
    unfolding unsharpStage_def dims Let_def case_prod_beta prod.case
      len_def [symmetric] blurred_def [symmetric] st1_def [symmetric]
      buf_def [symmetric] st2_def [symmetric]
    by (intro kept_fold kept_setArr keeps_write_dep b a(2) assms(1))
qed

lemma kept_runStage:
  assumes "n \<le> newData" and "kept n st0 st"
  shows "kept n st0 (runStage procMethod param1 param2 vol reference newData st)"
proof (cases procMethod)
  case HistEq
  then show ?thesis by (simp add: runStage_def Let_def kept_histEqStage [OF assms])
next
  case Clahe
  then show ?thesis by (simp add: runStage_def Let_def kept_claheStage [OF assms])
next
  case GammaBright
  then show ?thesis
    by (simp add: runStage_def Let_def kept_chunkLoop [OF keeps_gammaVoxel [OF assms(1)] assms(2)])
next
  case GammaDark
  then show ?thesis
    by (simp add: runStage_def Let_def kept_chunkLoop [OF keeps_gammaVoxel [OF assms(1)] assms(2)])
next
  case Sigmoid
  then show ?thesis
    by (simp add: runStage_def Let_def kept_chunkLoop [OF keeps_sigmoidVoxel [OF assms(1)] assms(2)])
next
  case Gaussian
  then show ?thesis by (simp add: runStage_def Let_def kept_gaussianStage [OF assms])
next
  case Unsharp
  then show ?thesis by (simp add: runStage_def Let_def kept_unsharpStage [OF assms])
next
  case HistMatch
  then show ?thesis
    by (cases reference) (simp add: runStage_def Let_def kept_histMatchStage [OF assms])
next
  case N4Bias
  then show ?thesis
    by (simp add: runStage_def Let_def kept_fold [OF keeps_n4Voxel [OF assms(1)] assms(2)])
next
  case Median3d
  then show ?thesis by (simp add: runStage_def Let_def kept_medianStage [OF assms])
qed

lemma kept_arrays: "kept n st0 st \<Longrightarrow> a < n \<Longrightarrow> arrayAt st a = arrayAt st0 a"
  by (simp add: kept_def arrayAt_def)

lemma kept_length: "kept n st0 st \<Longrightarrow> length st0 \<le> length st"
  by (simp add: kept_def)

lemma kept_after_alloc:
  assumes "kept (length st) (st @ [xs]) st'"
  shows "kept (length st) st st'" and "length st < length st'"
  using assms by (simp_all add: kept_def nth_append)

lemma runProcessing_kept:
  "kept (length st) (st @ [replicate (length (arrayAt st (data vol))) 0])
     (fst (runProcessing st (Some vol) procMethod param1 param2 referenceVolume))"
proof -
  define len where "len = length (arrayAt st (data vol))"
  define st1 where "st1 = st @ [replicate len 0]"
  have a: "kept (length st) st1 st1" by (simp add: kept_def st1_def)
  have b: "kept (length st) st1 (setArr (length st) (arrayAt st1 (data vol)) st1)"
    by (rule kept_setArr [OF order_refl a])
  show ?thesis
    unfolding runProcessing_def option.case Let_def case_prod_beta alloc_def fst_conv snd_conv
      len_def [symmetric] st1_def [symmetric]
    using b kept_runStage [OF order_refl b] by simp
qed

lemma runProcessing_output:
  "map_option data (snd (runProcessing st (Some vol) procMethod param1 param2 referenceVolume)) =
     (if procMethod = HistMatch \<and> referenceVolume = None then None else Some (length st))"
  by (simp add: runProcessing_def Let_def case_prod_beta alloc_def)

lemma runSegmentation_kept:
  assumes "m \<noteq> ManualDraw"
  shows "kept (length st) (st @ [replicate (length (arrayAt st (data vol))) 0])
     (fst (runSegmentation st (Some vol) m manualThreshold manualUpper))"
proof -
  define len where "len = length (arrayAt st (data vol))"
  define st1 where "st1 = st @ [replicate len 0]"
  have a: "kept (length st) st1 st1" by (simp add: kept_def st1_def)
  show ?thesis
    unfolding runSegmentation_def option.case Let_def case_prod_beta alloc_def fst_conv snd_conv
      len_def [symmetric] st1_def [symmetric]
    using assms kept_chunkLoop [OF keeps_segVoxel [OF order_refl] a] by simp
qed

lemma runSegmentation_output:
  "map_option data (snd (runSegmentation st (Some vol) m manualThreshold manualUpper)) =
     (if m = ManualDraw then None else Some (length st))"
  by (simp add: runSegmentation_def Let_def case_prod_beta alloc_def)

lemma runSegmentation_manual:
  "fst (runSegmentation st (Some vol) ManualDraw manualThreshold manualUpper) = st"
  by (simp add: runSegmentation_def)

text \<open>
  Claim C9. A transform (\<^verbatim>\<open>runProcessing\<close>, every method) and a segmentation run
  (\<^verbatim>\<open>runSegmentation\<close>, every method) leave every array of the store they start from as
  it is, the data of the input volume among them; the volume they hand over has its
  data at a new address, the one of the array they allocate. The brush
  (\<^verbatim>\<open>handleDraw\<close>) on an existing segmentation allocates nothing, hands over the address of
  that segmentation's data, and leaves every other array as it is: it writes into the
  mask it is given.
\<close>

theorem stages_keep_input_arrays:
  assumes "data vol < length st"
  shows "(\<forall>a < length st.
            arrayAt (fst (runProcessing st (Some vol) procMethod param1 param2 referenceVolume)) a = arrayAt st a) \<and>
         arrayAt (fst (runProcessing st (Some vol) procMethod param1 param2 referenceVolume)) (data vol) =
           arrayAt st (data vol) \<and>
         length st < length (fst (runProcessing st (Some vol) procMethod param1 param2 referenceVolume)) \<and>
         map_option data (snd (runProcessing st (Some vol) procMethod param1 param2 referenceVolume)) =
           (if procMethod = HistMatch \<and> referenceVolume = None then None else Some (length st)) \<and>
         (\<forall>a < length st.
            arrayAt (fst (runSegmentation st (Some vol) m manualThreshold manualUpper)) a = arrayAt st a) \<and>
         arrayAt (fst (runSegmentation st (Some vol) m manualThreshold manualUpper)) (data vol) =
           arrayAt st (data vol) \<and>
         map_option data (snd (runSegmentation st (Some vol) m manualThreshold manualUpper)) =
           (if m = ManualDraw then None else Some (length st)) \<and>
         (m \<noteq> ManualDraw \<longrightarrow>
            length st < length (fst (runSegmentation st (Some vol) m manualThreshold manualUpper))) \<and>
         (\<forall>s. data s < length st \<longrightarrow>
            length (fst (handleDraw st (Some vol) (Some s) x y z val r)) = length st \<and>
            map_option data (snd (handleDraw st (Some vol) (Some s) x y z val r)) = Some (data s) \<and>
            (\<forall>a < length st. a \<noteq> data s \<longrightarrow>
               arrayAt (fst (handleDraw st (Some vol) (Some s) x y z val r)) a = arrayAt st a))"
proof -
  let ?P = "fst (runProcessing st (Some vol) procMethod param1 param2 referenceVolume)"
  let ?S = "fst (runSegmentation st (Some vol) m manualThreshold manualUpper)"
  note kp = kept_after_alloc [OF runProcessing_kept [of st vol procMethod param1 param2 referenceVolume]]
  have p1: "\<forall>a < length st. arrayAt ?P a = arrayAt st a"
    using kept_arrays [OF kp(1)] by blast
  have p2: "arrayAt ?P (data vol) = arrayAt st (data vol)"
    using p1 assms by blast
  have s1: "\<forall>a < length st. arrayAt ?S a = arrayAt st a"
  proof (cases "m = ManualDraw")
    case True
    then show ?thesis by (simp add: runSegmentation_manual)
  next
    case False
    from kept_arrays [OF kept_after_alloc(1) [OF runSegmentation_kept [OF False]]]
    show ?thesis by blast
  qed
  have s2: "arrayAt ?S (data vol) = arrayAt st (data vol)"
    using s1 assms by blast
  have s3: "m \<noteq> ManualDraw \<longrightarrow> length st < length ?S"
    using kept_after_alloc(2) [OF runSegmentation_kept] by blast
  have h: "\<forall>s. data s < length st \<longrightarrow>
            length (fst (handleDraw st (Some vol) (Some s) x y z val r)) = length st \<and>
            map_option data (snd (handleDraw st (Some vol) (Some s) x y z val r)) = Some (data s) \<and>
            (\<forall>a < length st. a \<noteq> data s \<longrightarrow>
               arrayAt (fst (handleDraw st (Some vol) (Some s) x y z val r)) a = arrayAt st a)"
  proof (intro allI impI)
    fix s :: "(addr, real) VolumeData" assume s: "data s < length st"
    have e: "handleDraw st (Some vol) (Some s) x y z val r =
        (paintLoops (dimensions vol) x y z val r (data s) st, Some s)"
      by (simp add: handleDraw_def Let_def)
    note pa = paintLoops_array [OF s]
    show "length (fst (handleDraw st (Some vol) (Some s) x y z val r)) = length st \<and>
            map_option data (snd (handleDraw st (Some vol) (Some s) x y z val r)) = Some (data s) \<and>
            (\<forall>a < length st. a \<noteq> data s \<longrightarrow>
               arrayAt (fst (handleDraw st (Some vol) (Some s) x y z val r)) a = arrayAt st a)"
      unfolding e using pa(1) pa(4) by simp
  qed
  show ?thesis
    using p1 p2 kp(2) runProcessing_output s1 s2 runSegmentation_output s3 h by blast
qed

text \<open>
  The theorem on a store with the volume \<open>[5, 7]\<close> at address 0 and a mask \<open>[0, 0]\<close> at
  address 1: smoothing and Otsu segmentation leave the volume as it is and put their
  result at the new address 2; the brush of radius 0 at voxel \<open>(0, 0, 0)\<close> turns the mask
  at address 1 into \<open>[1, 0]\<close>.
\<close>

theorem stages_keep_input_arrays_witness:
  "data exVol5 < length exStore5 \<and>
   arrayAt (fst (runProcessing exStore5 (Some exVol5) Gaussian 1 (1/2) None)) 0 = [5, 7] \<and>
   map_option data (snd (runProcessing exStore5 (Some exVol5) Gaussian 1 (1/2) None)) = Some 2 \<and>
   arrayAt (fst (runSegmentation exStore5 (Some exVol5) Otsu 0 0)) 0 = [5, 7] \<and>
   map_option data (snd (runSegmentation exStore5 (Some exVol5) Otsu 0 0)) = Some 2 \<and>
   data exSeg5 < length exStore5 \<and>
   map_option data (snd (handleDraw exStore5 (Some exVol5) (Some exSeg5) 0 0 0 1 0)) = Some 1 \<and>
   arrayAt (fst (handleDraw exStore5 (Some exVol5) (Some exSeg5) 0 0 0 1 0)) 0 = [5, 7] \<and>
   arrayAt (fst (handleDraw exStore5 (Some exVol5) (Some exSeg5) 0 0 0 1 0)) 1 = [1, 0]"
proof -
  have h: "data exVol5 < length exStore5" by (simp add: exVol5_def exStore5_def)
  have hs: "data exSeg5 < length exStore5" by (simp add: exSeg5_def exStore5_def)
  note t = stages_keep_input_arrays [OF h, of Gaussian 1 "1/2" None Otsu 0 0 0 0 0 1 0]
  have d: "data exVol5 = 0" "data exSeg5 = 1" "length exStore5 = 2" "arrayAt exStore5 0 = [5, 7]"
    by (simp_all add: exVol5_def exSeg5_def exStore5_def arrayAt_def)
  from t have p0: "arrayAt (fst (runProcessing exStore5 (Some exVol5) Gaussian 1 (1/2) None)) (data exVol5) =
      arrayAt exStore5 (data exVol5)"
    and po0: "map_option data (snd (runProcessing exStore5 (Some exVol5) Gaussian 1 (1/2) None)) =
      (if Gaussian = HistMatch \<and> (None :: (addr, real) VolumeData option) = None then None
       else Some (length exStore5))"
    and s0: "arrayAt (fst (runSegmentation exStore5 (Some exVol5) Otsu 0 0)) (data exVol5) =
      arrayAt exStore5 (data exVol5)"
    and so0: "map_option data (snd (runSegmentation exStore5 (Some exVol5) Otsu 0 0)) =
      (if Otsu = ManualDraw then None else Some (length exStore5))"
    and h0: "\<forall>s. data s < length exStore5 \<longrightarrow>
            length (fst (handleDraw exStore5 (Some exVol5) (Some s) 0 0 0 1 0)) = length exStore5 \<and>
            map_option data (snd (handleDraw exStore5 (Some exVol5) (Some s) 0 0 0 1 0)) = Some (data s) \<and>
            (\<forall>a < length exStore5. a \<noteq> data s \<longrightarrow>
               arrayAt (fst (handleDraw exStore5 (Some exVol5) (Some s) 0 0 0 1 0)) a = arrayAt exStore5 a)"
    by blast+
  have p: "arrayAt (fst (runProcessing exStore5 (Some exVol5) Gaussian 1 (1/2) None)) 0 = [5, 7]"
    using p0 by (simp only: d)
  have po: "map_option data (snd (runProcessing exStore5 (Some exVol5) Gaussian 1 (1/2) None)) = Some 2"
    unfolding po0 by (simp add: d)
  have s: "arrayAt (fst (runSegmentation exStore5 (Some exVol5) Otsu 0 0)) 0 = [5, 7]"
    using s0 by (simp only: d)
  have so: "map_option data (snd (runSegmentation exStore5 (Some exVol5) Otsu 0 0)) = Some 2"
    unfolding so0 by (simp add: d)
  from h0 [rule_format, OF hs]
  have ho0: "map_option data (snd (handleDraw exStore5 (Some exVol5) (Some exSeg5) 0 0 0 1 0)) = Some (data exSeg5)"
    and hk0: "\<forall>a < length exStore5. a \<noteq> data exSeg5 \<longrightarrow>
               arrayAt (fst (handleDraw exStore5 (Some exVol5) (Some exSeg5) 0 0 0 1 0)) a = arrayAt exStore5 a"
    by blast+
  have ho: "map_option data (snd (handleDraw exStore5 (Some exVol5) (Some exSeg5) 0 0 0 1 0)) = Some 1"
    using ho0 by (simp only: d)
  have hk: "arrayAt (fst (handleDraw exStore5 (Some exVol5) (Some exSeg5) 0 0 0 1 0)) 0 = [5, 7]"
    using hk0 [rule_format, of 0] by (simp add: d)
  have hw: "arrayAt (fst (handleDraw exStore5 (Some exVol5) (Some exSeg5) 0 0 0 1 0)) 1 = [1, 0]"
    by (simp add: handleDraw_def paintLoops_def paintAt_def writeArr_def arrayAt_def Let_def
          exVol5_def exSeg5_def exStore5_def)
  from h p po s so hs ho hk hw show ?thesis by blast
qed

end
